theory Spec2Isabelle
  imports Main "HOL-Library.Word" "HOL-Library.Multiset"
begin

unbundle bit_operations_syntax

section \<open>The intermediate representation read and written by the pass\<close>

text \<open>
  Flattening.cpp works on one LLVM function through pointers to its basic blocks and
  instructions.  A \<open>BasicBlock *\<close> is modelled by a number (the identity of the block), an
  operand (\<open>Value *\<close>) by the term of the instruction that defines it.  A block is the
  sequence of its non-terminator instructions together with its terminator; a function is
  the list of its blocks in layout order, the entry block first.

  Every block the pass reads has a terminator (the input is verified IR), so the terminator
  is a field of the block: where the code erases a terminator and later creates the new one
  at the end of the same block (lines 116 and 132, 189 and 194), the model replaces the
  field, and the loop header is created with its switch (lines 126, 128 and 135).  Phi
  nodes are among the opaque instructions; the update of their incoming blocks by
  \<open>splitBasicBlock\<close> is not modelled.
\<close>

type_synonym u32 = "32 word"
type_synonym bid = nat

datatype binop = Xor | And

datatype instr =
    Orig nat
  | AllocaInst string
  | StoreInst val val
  | LoadInst val string
  | SExtInst val
  | BinaryOperator binop val val
and val =
    ConstantInt32 u32
  | ConstantInt1 bool
  | InstV instr
  | OtherV nat

text \<open>
  \<open>Orig n\<close> is an instruction of the input procedure, opaque to the pass; \<open>OtherV n\<close> is a
  value that is not an instruction (an argument, a global).  \<open>OtherTerm ts\<close> stands for the
  terminators the pass does not tell apart (indirectbr, unreachable, resume, ...), with
  their successor list.
\<close>

datatype terminator =
    Ret
  | Br bid
  | CondBr val bid bid
  | Invoke bid bid
  | Switch val bid "(u32 \<times> bid) list"
  | OtherTerm "bid list"

record basic_block =
  bb_id :: bid
  bb_insts :: "instr list"
  bb_term :: terminator

type_synonym func = "basic_block list"

fun successors :: "terminator \<Rightarrow> bid list" where
  "successors Ret = []"
| "successors (Br t) = [t]"
| "successors (CondBr c t e) = [t, e]"
| "successors (Invoke n u) = [n, u]"
| "successors (Switch v d cs) = d # map snd cs"
| "successors (OtherTerm ts) = ts"

definition getNumSuccessors :: "terminator \<Rightarrow> nat" where
  "getNumSuccessors t = length (successors t)"

definition getSuccessor :: "terminator \<Rightarrow> nat \<Rightarrow> bid" where
  "getSuccessor t k = successors t ! k"

fun isa_InvokeInst :: "terminator \<Rightarrow> bool" where
  "isa_InvokeInst (Invoke n u) = True"
| "isa_InvokeInst t = False"

fun isa_BranchInst :: "terminator \<Rightarrow> bool" where
  "isa_BranchInst (Br t) = True"
| "isa_BranchInst (CondBr c t e) = True"
| "isa_BranchInst t = False"

fun isConditional :: "terminator \<Rightarrow> bool" where
  "isConditional (CondBr c t e) = True"
| "isConditional t = False"

subsection \<open>Blocks of a function, by pointer\<close>

definition getBB :: "func \<Rightarrow> bid \<Rightarrow> basic_block option" where
  "getBB f b = find (\<lambda>blk. bb_id blk = b) f"

definition updateBB :: "func \<Rightarrow> bid \<Rightarrow> (basic_block \<Rightarrow> basic_block) \<Rightarrow> func" where
  "updateBB f b g = map (\<lambda>blk. if bb_id blk = b then g blk else blk) f"

text \<open>A block created by the pass is a new object: its identity differs from every block of the function.\<close>

definition newBB :: "func \<Rightarrow> bid" where
  "newBB f = Suc (fold max (map bb_id f) 0)"

definition removeBB :: "func \<Rightarrow> bid \<Rightarrow> func" where
  "removeBB f b = filter (\<lambda>blk. bb_id blk \<noteq> b) f"

definition insertBefore :: "func \<Rightarrow> basic_block \<Rightarrow> bid \<Rightarrow> func" where
  "insertBefore f blk t =
     takeWhile (\<lambda>x. bb_id x \<noteq> t) f @ [blk] @ dropWhile (\<lambda>x. bb_id x \<noteq> t) f"

definition moveBefore :: "func \<Rightarrow> bid \<Rightarrow> bid \<Rightarrow> func" where
  "moveBefore f b t =
     (case getBB f b of
        None \<Rightarrow> f
      | Some blk \<Rightarrow> insertBefore (removeBB f b) blk t)"

text \<open>
  \<open>splitBasicBlock(i, "first")\<close>: the instructions from position \<open>i\<close> to the end (the
  terminator is the last position) move to a new block placed right after the old one; the
  old block ends with a branch to the new one.
\<close>

definition splitBasicBlock :: "func \<Rightarrow> bid \<Rightarrow> nat \<Rightarrow> func \<times> bid" where
  "splitBasicBlock f old i =
     (let new = newBB f in
      (concat (map (\<lambda>blk.
          if bb_id blk = old
          then [blk\<lparr>bb_insts := take i (bb_insts blk), bb_term := Br new\<rparr>,
                \<lparr>bb_id = new, bb_insts = drop i (bb_insts blk), bb_term = bb_term blk\<rparr>]
          else [blk]) f), new))"

text \<open>\<open>SwitchInst::addCase\<close> appends a case to the switch that ends block \<open>sw\<close>.\<close>

definition addCase :: "func \<Rightarrow> bid \<Rightarrow> u32 \<Rightarrow> bid \<Rightarrow> func" where
  "addCase f sw numCase dest =
     updateBB f sw (\<lambda>blk. blk\<lparr>bb_term :=
        (case bb_term blk of
           Switch v d cs \<Rightarrow> Switch v d (cs @ [(numCase, dest)])
         | t \<Rightarrow> t)\<rparr>)"

section \<open>Flattening::flatten\<close>

datatype error = AssertNumSuccessors | BadCast | IndexOutOfRange | NoBlock

text \<open>\<open>v[i]\<close> on a \<open>std::vector\<close>: reading past the end is an error of the model.\<close>

definition vec_at :: "'a list \<Rightarrow> nat \<Rightarrow> error + 'a" where
  "vec_at xs i = (if i < length xs then Inr (xs ! i) else Inl IndexOutOfRange)"

text \<open>\<open>std::distance(v.begin(), std::find(v.begin(), v.end(), x))\<close>: the size when absent.\<close>

fun index_of :: "'a list \<Rightarrow> 'a \<Rightarrow> nat" where
  "index_of [] x = 0"
| "index_of (y # ys) x = (if y = x then 0 else Suc (index_of ys x))"

definition switchVar :: instr where
  "switchVar = AllocaInst ''switchVar''"

definition load :: instr where
  "load = LoadInst (InstV switchVar) ''switchVar''"

text \<open>Lines 70-77: save all original blocks; \<open>None\<close> is the \<open>return false\<close> at an invoke.\<close>

fun saveOrigBB :: "func \<Rightarrow> bid list \<Rightarrow> bid list option" where
  "saveOrigBB [] origBB = Some origBB"
| "saveOrigBB (tmp # rest) origBB =
     (if isa_InvokeInst (bb_term tmp) then None
      else saveOrigBB rest (origBB @ [bb_id tmp]))"

text \<open>
  Lines 88-108: if the entry block ends in a conditional branch or has more than one
  successor, split it before its last instruction, or before its last two when it has more
  than one instruction, and put the new block in front of \<open>origBB\<close>.
\<close>

definition splitEntry :: "func \<Rightarrow> bid list \<Rightarrow> func \<times> bid list" where
  "splitEntry f origBB =
     (case f of
        [] \<Rightarrow> (f, origBB)
      | insertB # rest \<Rightarrow>
          if (isa_BranchInst (bb_term insertB) \<and> isConditional (bb_term insertB))
             \<or> getNumSuccessors (bb_term insertB) > 1
          then
            (let size = Suc (length (bb_insts insertB));
                 i = size - 1;
                 i = (if size > 1 then i - 1 else i);
                 (f', tmpBB) = splitBasicBlock f (bb_id insertB) i
             in (f', tmpBB # origBB))
          else (f, origBB))"

text \<open>
  Lines 115-135: the terminator of the entry block is erased, the state variable is
  allocated and initialised there, the loop header is created with the load and the switch
  (default: the loop header), the entry block is moved in front of it and ends with a jump
  to it.
\<close>

definition buildLoop :: "func \<Rightarrow> bid \<Rightarrow> u32 list \<Rightarrow> error + (func \<times> bid)" where
  "buildLoop f insertB bbIndex =
     (case vec_at bbIndex 0 of
        Inl e \<Rightarrow> Inl e
      | Inr l0 \<Rightarrow>
         (let f1 = updateBB f insertB (\<lambda>blk. blk\<lparr>bb_insts :=
                     bb_insts blk @ [switchVar, StoreInst (ConstantInt32 l0) (InstV switchVar)]\<rparr>);
              loopEntry = newBB f1;
              f2 = insertBefore f1
                     \<lparr>bb_id = loopEntry, bb_insts = [load],
                      bb_term = Switch (InstV load) loopEntry []\<rparr> insertB;
              f3 = moveBefore f2 insertB loopEntry;
              f4 = updateBB f3 insertB (\<lambda>blk. blk\<lparr>bb_term := Br loopEntry\<rparr>)
          in Inr (f4, loopEntry)))"

text \<open>Lines 142-154: every block of \<open>origBB\<close>, in the shuffled order, is moved in front of the loop header and gets a case.\<close>

fun putInSwitch :: "bid list \<Rightarrow> u32 list \<Rightarrow> bid \<Rightarrow> nat list \<Rightarrow> func \<Rightarrow> error + func" where
  "putInSwitch origBB bbIndex loopEntry [] f = Inr f"
| "putInSwitch origBB bbIndex loopEntry (b # bs) f =
     (case vec_at origBB b of
        Inl e \<Rightarrow> Inl e
      | Inr i \<Rightarrow>
         (case vec_at bbIndex b of
            Inl e \<Rightarrow> Inl e
          | Inr numCase \<Rightarrow>
              putInSwitch origBB bbIndex loopEntry bs
                (addCase (moveBefore f i loopEntry) loopEntry numCase i)))"

text \<open>
  Lines 167-179: the condition to sign-extend and the positions of the true and the false
  successor.  For a single successor the condition is the constant 0 and the "true"
  position is that of \<open>b\<close> in \<open>bbSeq\<close>.
\<close>

definition succIndex :: "bid list \<Rightarrow> nat list \<Rightarrow> nat \<Rightarrow> terminator \<Rightarrow> error + (val \<times> nat \<times> nat)" where
  "succIndex origBB bbSeq b t =
     (if getNumSuccessors t = 1 then
        Inr (ConstantInt1 False, index_of bbSeq b, index_of origBB (getSuccessor t 0))
      else if getNumSuccessors t \<noteq> 2 then Inl AssertNumSuccessors
      else (case t of
              CondBr c t1 t2 \<Rightarrow>
                Inr (c, index_of origBB (getSuccessor t 0), index_of origBB (getSuccessor t 1))
            | _ \<Rightarrow> Inl BadCast))"

text \<open>
  Lines 169/176 and 181-192: the instructions put in front of the terminator, and the
  store.  \<open>lb\<close>, \<open>lt\<close> and \<open>lf\<close> are \<open>bbIndex[b]\<close>, \<open>bbIndex[succIndexTrue]\<close> and
  \<open>bbIndex[succIndexFalse]\<close>.
\<close>

definition cond :: "val \<Rightarrow> instr" where
  "cond c = SExtInst c"

definition tempValFalse :: "u32 \<Rightarrow> u32 \<Rightarrow> instr" where
  "tempValFalse lb lf = BinaryOperator Xor (ConstantInt32 (lb XOR lf)) (InstV load)"

definition maskVal :: "val \<Rightarrow> u32 \<Rightarrow> u32 \<Rightarrow> instr" where
  "maskVal c lt lf = BinaryOperator And (InstV (cond c)) (ConstantInt32 (lt XOR lf))"

definition finalVal :: "val \<Rightarrow> u32 \<Rightarrow> u32 \<Rightarrow> u32 \<Rightarrow> instr" where
  "finalVal c lb lt lf =
     BinaryOperator Xor (InstV (maskVal c lt lf)) (InstV (tempValFalse lb lf))"

definition newInsts :: "val \<Rightarrow> u32 \<Rightarrow> u32 \<Rightarrow> u32 \<Rightarrow> instr list" where
  "newInsts c lb lt lf =
     [cond c, tempValFalse lb lf, maskVal c lt lf, finalVal c lb lt lf,
      StoreInst (InstV (finalVal c lb lt lf)) (InstV switchVar)]"

text \<open>
  Lines 162-194, what the body of the loop makes of the block \<open>origBB[b]\<close>: a block
  without successor is left as it is; otherwise the new instructions are put in front of
  the terminator, the terminator is erased, the store and the jump to the loop header are
  put at the end.
\<close>

definition rewriteBB ::
  "bid list \<Rightarrow> u32 list \<Rightarrow> nat list \<Rightarrow> bid \<Rightarrow> nat \<Rightarrow> basic_block \<Rightarrow> error + basic_block" where
  "rewriteBB origBB bbIndex bbSeq loopEntry b blk =
     (if getNumSuccessors (bb_term blk) = 0 then Inr blk
      else
        (case succIndex origBB bbSeq b (bb_term blk) of
           Inl e \<Rightarrow> Inl e
         | Inr (c, succIndexTrue, succIndexFalse) \<Rightarrow>
            if b < length bbIndex \<and> succIndexFalse < length bbIndex
               \<and> succIndexTrue < length bbIndex
            then Inr (blk\<lparr>
                   bb_insts := bb_insts blk
                      @ newInsts c (bbIndex ! b) (bbIndex ! succIndexTrue)
                          (bbIndex ! succIndexFalse),
                   bb_term := Br loopEntry\<rparr>)
            else Inl IndexOutOfRange))"

text \<open>Lines 158-194, the body of the loop for one \<open>b\<close>, on the function.\<close>

definition recalcBB ::
  "bid list \<Rightarrow> u32 list \<Rightarrow> nat list \<Rightarrow> bid \<Rightarrow> nat \<Rightarrow> func \<Rightarrow> error + func" where
  "recalcBB origBB bbIndex bbSeq loopEntry b f =
     (case vec_at origBB b of
        Inl e \<Rightarrow> Inl e
      | Inr i \<Rightarrow>
         (case getBB f i of
            None \<Rightarrow> Inl NoBlock
          | Some blk \<Rightarrow>
             (case rewriteBB origBB bbIndex bbSeq loopEntry b blk of
                Inl e \<Rightarrow> Inl e
              | Inr blk' \<Rightarrow> Inr (updateBB f i (\<lambda>old. blk')))))"

text \<open>Lines 157-195.\<close>

fun recalculate ::
  "bid list \<Rightarrow> u32 list \<Rightarrow> nat list \<Rightarrow> bid \<Rightarrow> nat list \<Rightarrow> func \<Rightarrow> error + func" where
  "recalculate origBB bbIndex bbSeq loopEntry [] f = Inr f"
| "recalculate origBB bbIndex bbSeq loopEntry (b # bs) f =
     (case recalcBB origBB bbIndex bbSeq loopEntry b f of
        Inl e \<Rightarrow> Inl e
      | Inr f' \<Rightarrow> recalculate origBB bbIndex bbSeq loopEntry bs f')"

text \<open>
  The values \<open>flatten\<close> holds when it reaches \<open>fixStack\<close>: the dispatched blocks, their
  labels, the shuffled order, the loop header, the function after the entry split and the
  function after the whole rewriting.
\<close>

record flat =
  fl_origBB :: "bid list"
  fl_bbIndex :: "u32 list"
  fl_bbSeq :: "nat list"
  fl_loopEntry :: bid
  fl_split :: func
  fl_func :: func

text \<open>
  The random generator is a parameter: \<open>rnd k\<close> is the \<open>k\<close>-th label drawn (line 112),
  \<open>shuffle\<close> the outcome of \<open>std::shuffle\<close> (line 139).

  Lines 110-195, from the drawing of the labels to the end of the rewriting, on the function
  \<open>f1\<close> left by the entry split, with entry block \<open>insertB\<close>.
\<close>

definition buildDispatch ::
  "(nat \<Rightarrow> u32) \<Rightarrow> (nat list \<Rightarrow> nat list) \<Rightarrow> bid \<Rightarrow> func \<Rightarrow> bid list \<Rightarrow> error + flat" where
  "buildDispatch rnd shuffle insertB f1 origBB =
     (let bbIndex = map rnd [0..<length origBB]
      in case buildLoop f1 insertB bbIndex of
           Inl e \<Rightarrow> Inl e
         | Inr (f2, loopEntry) \<Rightarrow>
            (let bbSeq = shuffle [0..<length origBB]
             in case putInSwitch origBB bbIndex loopEntry bbSeq f2 of
                  Inl e \<Rightarrow> Inl e
                | Inr f3 \<Rightarrow>
                   (case recalculate origBB bbIndex bbSeq loopEntry bbSeq f3 of
                      Inl e \<Rightarrow> Inl e
                    | Inr f4 \<Rightarrow>
                       Inr \<lparr>fl_origBB = origBB, fl_bbIndex = bbIndex,
                            fl_bbSeq = bbSeq, fl_loopEntry = loopEntry,
                            fl_split = f1, fl_func = f4\<rparr>)))"

text \<open>Lines 59-195; \<open>Inr None\<close> is \<open>return false\<close>.\<close>

definition flattenCore ::
  "(nat \<Rightarrow> u32) \<Rightarrow> (nat list \<Rightarrow> nat list) \<Rightarrow> func \<Rightarrow> error + flat option" where
  "flattenCore rnd shuffle f =
     (case saveOrigBB f [] of
        None \<Rightarrow> Inr None
      | Some origBB0 \<Rightarrow>
         if length origBB0 \<le> 1 then Inr None
         else
           (let insertB = bb_id (hd f);
                (f1, origBB) = splitEntry f (tl origBB0)
            in case buildDispatch rnd shuffle insertB f1 origBB of
                 Inl e \<Rightarrow> Inl e
               | Inr st \<Rightarrow> Inr (Some st)))"

text \<open>
  Lines 58-200.  \<open>fixStack\<close> is defined in Util.cpp, outside this file; it is a parameter.
\<close>

definition flatten ::
  "(func \<Rightarrow> func) \<Rightarrow> (nat \<Rightarrow> u32) \<Rightarrow> (nat list \<Rightarrow> nat list) \<Rightarrow> func \<Rightarrow> error + (bool \<times> func)" where
  "flatten fixStack rnd shuffle f =
     (case flattenCore rnd shuffle f of
        Inl e \<Rightarrow> Inl e
      | Inr None \<Rightarrow> Inr (False, f)
      | Inr (Some st) \<Rightarrow> Inr (True, fixStack (fl_func st)))"

section \<open>Execution of a function\<close>

text \<open>
  What the instructions and terminators above do when run.  The state of the original
  program is opaque: \<open>ex n\<close> is the effect of the original instruction \<open>Orig n\<close> on it,
  \<open>cv v s\<close> the truth value of the one-bit value \<open>v\<close> in state \<open>s\<close>.  The instructions the
  pass creates write registers (one per instruction) and memory cells (one per
  allocation); reading a register or a cell that was never written is \<open>None\<close>.  An
  allocation leaves its cell unwritten.  What a return hands back is part of the program
  state.
\<close>

type_synonym regfile = "(instr \<times> u32) list"
type_synonym memory = "(val \<times> u32) list"

record 's config =
  ustate :: 's
  regs :: regfile
  mem :: memory

datatype 's outcome = Returned 's | Stuck

fun eval32 :: "regfile \<Rightarrow> val \<Rightarrow> u32 option" where
  "eval32 rs (ConstantInt32 w) = Some w"
| "eval32 rs (InstV i) = map_of rs i"
| "eval32 rs v = None"

fun eval1 :: "(val \<Rightarrow> 's \<Rightarrow> bool) \<Rightarrow> 's \<Rightarrow> val \<Rightarrow> bool" where
  "eval1 cv s (ConstantInt1 b) = b"
| "eval1 cv s v = cv v s"

fun binop_sem :: "binop \<Rightarrow> u32 \<Rightarrow> u32 \<Rightarrow> u32" where
  "binop_sem Xor x y = x XOR y"
| "binop_sem And x y = x AND y"

fun exec_inst ::
  "(nat \<Rightarrow> 's \<Rightarrow> 's) \<Rightarrow> (val \<Rightarrow> 's \<Rightarrow> bool) \<Rightarrow> instr \<Rightarrow> 's config \<Rightarrow> 's config option" where
  "exec_inst ex cv (Orig n) c = Some (c\<lparr>ustate := ex n (ustate c)\<rparr>)"
| "exec_inst ex cv (AllocaInst nm) c = Some c"
| "exec_inst ex cv (StoreInst v p) c =
     (case eval32 (regs c) v of
        None \<Rightarrow> None
      | Some w \<Rightarrow> Some (c\<lparr>mem := (p, w) # mem c\<rparr>))"
| "exec_inst ex cv (LoadInst p nm) c =
     (case map_of (mem c) p of
        None \<Rightarrow> None
      | Some w \<Rightarrow> Some (c\<lparr>regs := (LoadInst p nm, w) # regs c\<rparr>))"
| "exec_inst ex cv (SExtInst v) c =
     Some (c\<lparr>regs := (SExtInst v, if eval1 cv (ustate c) v then - 1 else 0) # regs c\<rparr>)"
| "exec_inst ex cv (BinaryOperator opc a b) c =
     (case eval32 (regs c) a of
        None \<Rightarrow> None
      | Some x \<Rightarrow>
         (case eval32 (regs c) b of
            None \<Rightarrow> None
          | Some y \<Rightarrow> Some (c\<lparr>regs := (BinaryOperator opc a b, binop_sem opc x y) # regs c\<rparr>)))"

fun exec_insts ::
  "(nat \<Rightarrow> 's \<Rightarrow> 's) \<Rightarrow> (val \<Rightarrow> 's \<Rightarrow> bool) \<Rightarrow> instr list \<Rightarrow> 's config \<Rightarrow> 's config option" where
  "exec_insts ex cv [] c = Some c"
| "exec_insts ex cv (i # is) c =
     (case exec_inst ex cv i c of
        None \<Rightarrow> None
      | Some c' \<Rightarrow> exec_insts ex cv is c')"

text \<open>The case a switch takes: the first case with the value, the default when there is none.\<close>

definition switchDest :: "bid \<Rightarrow> (u32 \<times> bid) list \<Rightarrow> u32 \<Rightarrow> bid" where
  "switchDest d cs w = (case map_of cs w of None \<Rightarrow> d | Some t \<Rightarrow> t)"

text \<open>
  Running from block \<open>b\<close> with \<open>n\<close> blocks of fuel: \<open>None\<close> when the fuel runs out,
  \<open>Some Stuck\<close> at a terminator this semantics does not cover or at an undefined read.
\<close>

fun run ::
  "(nat \<Rightarrow> 's \<Rightarrow> 's) \<Rightarrow> (val \<Rightarrow> 's \<Rightarrow> bool) \<Rightarrow> func \<Rightarrow> nat \<Rightarrow> bid \<Rightarrow> 's config \<Rightarrow> 's outcome option" where
  "run ex cv f 0 b c = None"
| "run ex cv f (Suc n) b c =
     (case getBB f b of
        None \<Rightarrow> Some Stuck
      | Some blk \<Rightarrow>
         (case exec_insts ex cv (bb_insts blk) c of
            None \<Rightarrow> Some Stuck
          | Some c' \<Rightarrow>
             (case bb_term blk of
                Ret \<Rightarrow> Some (Returned (ustate c'))
              | Br t \<Rightarrow> run ex cv f n t c'
              | CondBr v t e \<Rightarrow> run ex cv f n (if eval1 cv (ustate c') v then t else e) c'
              | Switch v d cs \<Rightarrow>
                 (case eval32 (regs c') v of
                    None \<Rightarrow> Some Stuck
                  | Some w \<Rightarrow> run ex cv f n (switchDest d cs w) c')
              | Invoke t u \<Rightarrow> Some Stuck
              | OtherTerm ts \<Rightarrow> Some Stuck)))"

text \<open>A call of the function: from its entry block, in a state with no register and no cell written.\<close>

definition call ::
  "(nat \<Rightarrow> 's \<Rightarrow> 's) \<Rightarrow> (val \<Rightarrow> 's \<Rightarrow> bool) \<Rightarrow> func \<Rightarrow> nat \<Rightarrow> 's \<Rightarrow> 's outcome option" where
  "call ex cv f n s = run ex cv f n (bb_id (hd f)) \<lparr>ustate = s, regs = [], mem = []\<rparr>"

section \<open>The blocks the pass builds, and examples\<close>

text \<open>
  Names for the blocks that lines 106, 116-132 and 126-135 produce: the block split off the
  entry block \<open>e\<close>, the entry block after the initialisation of the state variable, and
  the loop header with its cases.
\<close>

definition firstBB :: "basic_block \<Rightarrow> bid \<Rightarrow> basic_block" where
  "firstBB e new = \<lparr>bb_id = new,
      bb_insts = (if bb_insts e = [] then [] else [last (bb_insts e)]), bb_term = bb_term e\<rparr>"

definition prologueBB :: "basic_block \<Rightarrow> u32 \<Rightarrow> bid \<Rightarrow> basic_block" where
  "prologueBB e l0 L = e\<lparr>bb_insts := bb_insts e @ [switchVar, StoreInst (ConstantInt32 l0) (InstV switchVar)],
                          bb_term := Br L\<rparr>"

definition loopBB :: "bid \<Rightarrow> (u32 \<times> bid) list \<Rightarrow> basic_block" where
  "loopBB L cs = \<lparr>bb_id = L, bb_insts = [load], bb_term = Switch (InstV load) L cs\<rparr>"

definition exProc :: func where
  "exProc = [\<lparr>bb_id = 0, bb_insts = [Orig 0], bb_term = Br 1\<rparr>,
          \<lparr>bb_id = 1, bb_insts = [Orig 1], bb_term = CondBr (InstV (Orig 1)) 2 3\<rparr>,
          \<lparr>bb_id = 2, bb_insts = [Orig 2], bb_term = Br 4\<rparr>,
          \<lparr>bb_id = 3, bb_insts = [Orig 3], bb_term = Br 4\<rparr>,
          \<lparr>bb_id = 4, bb_insts = [Orig 4], bb_term = Ret\<rparr>]"

definition exLabel :: "nat \<Rightarrow> u32" where
  "exLabel k = of_nat (10 + k)"

definition exFlat :: flat where
  "exFlat = \<lparr>fl_origBB = [1, 2, 3, 4], fl_bbIndex = [10, 11, 12, 13], fl_bbSeq = [3, 2, 1, 0],
     fl_loopEntry = 5, fl_split = exProc,
     fl_func =
      [\<lparr>bb_id = 0, bb_insts = [Orig 0, switchVar, StoreInst (ConstantInt32 10) (InstV switchVar)],
         bb_term = Br 5\<rparr>,
       \<lparr>bb_id = 4, bb_insts = [Orig 4], bb_term = Ret\<rparr>,
       \<lparr>bb_id = 3, bb_insts = Orig 3 # newInsts (ConstantInt1 False) 12 11 13, bb_term = Br 5\<rparr>,
       \<lparr>bb_id = 2, bb_insts = Orig 2 # newInsts (ConstantInt1 False) 11 12 13, bb_term = Br 5\<rparr>,
       \<lparr>bb_id = 1, bb_insts = Orig 1 # newInsts (InstV (Orig 1)) 10 11 12, bb_term = Br 5\<rparr>,
       \<lparr>bb_id = 5, bb_insts = [load],
         bb_term = Switch (InstV load) 5 [(13, 4), (12, 3), (11, 2), (10, 1)]\<rparr>]\<rparr>"

definition switchCases :: "func \<Rightarrow> bid \<Rightarrow> (u32 \<times> bid) list" where
  "switchCases f b =
     (case getBB f b of
        None \<Rightarrow> []
      | Some blk \<Rightarrow> (case bb_term blk of Switch v d cs \<Rightarrow> cs | _ \<Rightarrow> []))"

text \<open>An opaque program state with nothing in it, for the examples: no effect, every condition true.\<close>

definition noEffect :: "nat \<Rightarrow> unit \<Rightarrow> unit" where
  "noEffect n s = s"

definition allTrue :: "val \<Rightarrow> unit \<Rightarrow> bool" where
  "allTrue v s = True"

text \<open>Further examples: a chain of three blocks with the same label drawn twice, an entry block whose condition is not defined by its last instruction, an entry block with three successors.\<close>

definition c4Proc :: func where
  "c4Proc = [\<lparr>bb_id = 0, bb_insts = [], bb_term = Br 1\<rparr>,
             \<lparr>bb_id = 1, bb_insts = [], bb_term = Br 2\<rparr>,
             \<lparr>bb_id = 2, bb_insts = [], bb_term = Ret\<rparr>]"

definition sameLabel :: "nat \<Rightarrow> u32" where
  "sameLabel k = 7"

definition c4Flat :: flat where
  "c4Flat = \<lparr>fl_origBB = [1, 2], fl_bbIndex = [7, 7], fl_bbSeq = [1, 0],
     fl_loopEntry = 3, fl_split = c4Proc,
     fl_func =
      [\<lparr>bb_id = 0, bb_insts = [switchVar, StoreInst (ConstantInt32 7) (InstV switchVar)],
         bb_term = Br 3\<rparr>,
       \<lparr>bb_id = 2, bb_insts = [], bb_term = Ret\<rparr>,
       \<lparr>bb_id = 1, bb_insts = newInsts (ConstantInt1 False) 7 7 7, bb_term = Br 3\<rparr>,
       \<lparr>bb_id = 3, bb_insts = [load],
         bb_term = Switch (InstV load) 3 [(7, 2), (7, 1)]\<rparr>]\<rparr>"

text \<open>The blocks that will be dispatched: those after the entry block once the entry split is done.\<close>

definition dispatched :: "func \<Rightarrow> func" where
  "dispatched f = tl (fst (splitEntry f (map bb_id (tl f))))"

text \<open>
  The instructions that section 4.2 of the specification says move with the terminator of
  the entry block: the instruction that defines the condition of a conditional branch,
  nothing otherwise.  (What the code moves is in \<open>splitEntry\<close>.)
\<close>

fun specMoved :: "basic_block \<Rightarrow> instr list" where
  "specMoved blk = (case bb_term blk of CondBr (InstV i) t e \<Rightarrow> [i] | _ \<Rightarrow> [])"

definition c7Proc :: func where
  "c7Proc = [\<lparr>bb_id = 0, bb_insts = [Orig 0, Orig 1], bb_term = CondBr (InstV (Orig 0)) 1 2\<rparr>,
             \<lparr>bb_id = 1, bb_insts = [], bb_term = Ret\<rparr>,
             \<lparr>bb_id = 2, bb_insts = [], bb_term = Ret\<rparr>]"

definition c10Proc :: func where
  "c10Proc = [\<lparr>bb_id = 0, bb_insts = [], bb_term = OtherTerm [1, 2, 3]\<rparr>,
              \<lparr>bb_id = 1, bb_insts = [], bb_term = Ret\<rparr>,
              \<lparr>bb_id = 2, bb_insts = [], bb_term = Ret\<rparr>,
              \<lparr>bb_id = 3, bb_insts = [], bb_term = Ret\<rparr>]"

definition c7Flat :: flat where
  "c7Flat = \<lparr>fl_origBB = [3, 1, 2], fl_bbIndex = [10, 11, 12], fl_bbSeq = [2, 1, 0],
     fl_loopEntry = 4,
     fl_split =
       [\<lparr>bb_id = 0, bb_insts = [Orig 0], bb_term = Br 3\<rparr>,
        \<lparr>bb_id = 3, bb_insts = [Orig 1], bb_term = CondBr (InstV (Orig 0)) 1 2\<rparr>,
        \<lparr>bb_id = 1, bb_insts = [], bb_term = Ret\<rparr>,
        \<lparr>bb_id = 2, bb_insts = [], bb_term = Ret\<rparr>],
     fl_func =
       [\<lparr>bb_id = 0, bb_insts = [Orig 0, switchVar, StoreInst (ConstantInt32 10) (InstV switchVar)],
          bb_term = Br 4\<rparr>,
        \<lparr>bb_id = 2, bb_insts = [], bb_term = Ret\<rparr>,
        \<lparr>bb_id = 1, bb_insts = [], bb_term = Ret\<rparr>,
        \<lparr>bb_id = 3, bb_insts = Orig 1 # newInsts (InstV (Orig 0)) 10 11 12, bb_term = Br 4\<rparr>,
        \<lparr>bb_id = 4, bb_insts = [load],
          bb_term = Switch (InstV load) 4 [(12, 2), (11, 1), (10, 3)]\<rparr>]\<rparr>"

section \<open>Definitions for the comparison of the two functions\<close>

text \<open>
  An instruction of the input is opaque (\<open>isOrig\<close>); \<open>userExec\<close> is what a list of opaque
  instructions does to the program state; \<open>simpleTerm\<close> holds of the terminators of
  section 3 of the specification that the validator accepts.
\<close>

fun isOrig :: "instr \<Rightarrow> bool" where
  "isOrig (Orig n) = True"
| "isOrig i = False"

fun userExec :: "(nat \<Rightarrow> 's \<Rightarrow> 's) \<Rightarrow> instr list \<Rightarrow> 's \<Rightarrow> 's" where
  "userExec ex [] s = s"
| "userExec ex (Orig n # is) s = userExec ex is (ex n s)"
| "userExec ex (i # is) s = userExec ex is s"

fun simpleTerm :: "terminator \<Rightarrow> bool" where
  "simpleTerm Ret = True"
| "simpleTerm (Br t) = True"
| "simpleTerm (CondBr c t e) = True"
| "simpleTerm t = False"

text \<open>
  Block \<open>blk\<close> of the original is, in \<open>g\<close>, in the form the rewriting gives it: \<open>lab\<close> maps a
  block to its label, \<open>L\<close> is the loop header, \<open>D\<close> the blocks the simulation may reach.
\<close>

definition rewrittenIn :: "func \<Rightarrow> (bid \<Rightarrow> u32) \<Rightarrow> bid \<Rightarrow> bid set \<Rightarrow> basic_block \<Rightarrow> bool" where
  "rewrittenIn g lab L D blk \<longleftrightarrow>
     list_all isOrig (bb_insts blk) \<and>
     (case bb_term blk of
        Ret \<Rightarrow> getBB g (bb_id blk) = Some blk
      | Br t \<Rightarrow> t \<in> D \<and>
          (\<exists>lt. getBB g (bb_id blk) =
             Some (blk\<lparr>bb_insts := bb_insts blk
                          @ newInsts (ConstantInt1 False) (lab (bb_id blk)) lt (lab t),
                        bb_term := Br L\<rparr>))
      | CondBr v t e \<Rightarrow> t \<in> D \<and> e \<in> D \<and>
          getBB g (bb_id blk) =
             Some (blk\<lparr>bb_insts := bb_insts blk
                          @ newInsts v (lab (bb_id blk)) (lab t) (lab e),
                        bb_term := Br L\<rparr>)
      | _ \<Rightarrow> False)"

text \<open>
  For the examples: a program state that is the list of the instructions run so far, no
  condition true, and the function a call of \<open>flatten\<close> returns.
\<close>

definition logInst :: "nat \<Rightarrow> nat list \<Rightarrow> nat list" where
  "logInst n s = s @ [n]"

definition noCond :: "val \<Rightarrow> nat list \<Rightarrow> bool" where
  "noCond v s = False"

definition returnedFunc :: "error + bool \<times> func \<Rightarrow> func" where
  "returnedFunc r = (case r of Inl e \<Rightarrow> [] | Inr (b, g) \<Rightarrow> g)"

definition c2Proc :: func where
  "c2Proc = [\<lparr>bb_id = 0, bb_insts = [Orig 0], bb_term = Br 1\<rparr>,
             \<lparr>bb_id = 1, bb_insts = [Orig 1], bb_term = Br 2\<rparr>,
             \<lparr>bb_id = 2, bb_insts = [Orig 2], bb_term = Ret\<rparr>]"

definition c2Slip :: func where
  "c2Slip = [\<lparr>bb_id = 0, bb_insts = [Orig 0], bb_term = Br 2\<rparr>,
             \<lparr>bb_id = 1, bb_insts = [Orig 1], bb_term = Ret\<rparr>,
             \<lparr>bb_id = 2, bb_insts = [Orig 2], bb_term = Br 1\<rparr>]"

text \<open>An example whose entry block is split.\<close>

definition splitProc :: func where
  "splitProc = [\<lparr>bb_id = 0, bb_insts = [Orig 0, Orig 1], bb_term = CondBr (InstV (Orig 1)) 1 2\<rparr>,
                \<lparr>bb_id = 1, bb_insts = [Orig 2], bb_term = Br 2\<rparr>,
                \<lparr>bb_id = 2, bb_insts = [Orig 3], bb_term = Ret\<rparr>]"

section \<open>Lemmas about the blocks of a function\<close>

lemma getBB_Some_iff:
  "distinct (map bb_id f) \<Longrightarrow> getBB f x = Some blk \<longleftrightarrow> blk \<in> set f \<and> bb_id blk = x"
  unfolding getBB_def
  by (induction f) (auto simp: rev_image_eqI)

lemma getBB_None_iff: "getBB f x = None \<longleftrightarrow> x \<notin> bb_id ` set f"
  unfolding getBB_def by (induction f) auto

lemma getBB_SomeD: "getBB f x = Some blk \<Longrightarrow> blk \<in> set f \<and> bb_id blk = x"
  unfolding getBB_def by (induction f) (auto split: if_splits)

lemma getBB_cong_set:
  assumes "set g = set f" "distinct (map bb_id f)" "distinct (map bb_id g)"
  shows "getBB g x = getBB f x"
proof (cases "getBB f x")
  case None
  then have "x \<notin> bb_id ` set g" using assms(1) by (simp add: getBB_None_iff)
  then have "getBB g x = None" by (simp add: getBB_None_iff)
  then show ?thesis using None by simp
next
  case (Some blk)
  then have "blk \<in> set g \<and> bb_id blk = x" using assms(1) getBB_SomeD by blast
  then have "getBB g x = Some blk" using assms(3) by (simp add: getBB_Some_iff)
  then show ?thesis using Some by simp
qed

lemma map_id_updateBB:
  "(\<And>blk. bb_id (g blk) = bb_id blk) \<Longrightarrow> map bb_id (updateBB f b g) = map bb_id f"
  by (induction f) (auto simp: updateBB_def)

lemma getBB_updateBB:
  "(\<And>blk. bb_id (g blk) = bb_id blk) \<Longrightarrow>
   getBB (updateBB f b g) x = (if x = b then map_option g (getBB f b) else getBB f x)"
  unfolding getBB_def updateBB_def
  by (induction f) auto

lemma fold_max_mono: "a \<le> fold max ys (a::nat)"
proof (induction ys arbitrary: a)
  case Nil then show ?case by simp
next
  case (Cons y ys)
  have "a \<le> max y a" by simp
  also have "\<dots> \<le> fold max ys (max y a)" by (rule Cons.IH)
  finally show ?case by simp
qed

lemma fold_max_ge: "x \<in> set xs \<Longrightarrow> x \<le> fold max xs (a::nat)"
proof (induction xs arbitrary: a)
  case Nil then show ?case by simp
next
  case (Cons y ys)
  show ?case
  proof (cases "x = y")
    case True
    have "y \<le> max y a" by simp
    also have "\<dots> \<le> fold max ys (max y a)" by (rule fold_max_mono)
    finally show ?thesis using True by simp
  next
    case False
    then show ?thesis using Cons by simp
  qed
qed

lemma newBB_fresh: "newBB f \<notin> set (map bb_id f)"
proof
  assume "newBB f \<in> set (map bb_id f)"
  then have "newBB f \<le> fold max (map bb_id f) 0" by (rule fold_max_ge)
  then show False by (simp add: newBB_def)
qed

lemma mset_insertBefore: "mset (insertBefore g blk t) = add_mset blk (mset g)"
proof -
  have "mset (takeWhile (\<lambda>x. bb_id x \<noteq> t) g) + mset (dropWhile (\<lambda>x. bb_id x \<noteq> t) g) = mset g"
    by (simp flip: mset_append)
  then show ?thesis by (simp add: insertBefore_def)
qed

lemma filter_id_single:
  "distinct (map bb_id f) \<Longrightarrow> blk \<in> set f \<Longrightarrow> filter (\<lambda>x. bb_id x = bb_id blk) f = [blk]"
proof (induction f)
  case Nil then show ?case by simp
next
  case (Cons a f)
  then show ?case by (auto simp: filter_empty_conv rev_image_eqI)
qed

lemma mset_removeBB:
  assumes "distinct (map bb_id f)" "blk \<in> set f"
  shows "add_mset blk (mset (removeBB f (bb_id blk))) = mset f"
proof -
  have "mset f = mset (filter (\<lambda>x. bb_id x = bb_id blk) f) + mset (filter (\<lambda>x. bb_id x \<noteq> bb_id blk) f)"
    by (induction f) auto
  then show ?thesis using filter_id_single [OF assms] by (simp add: removeBB_def)
qed

lemma mset_moveBefore:
  assumes "distinct (map bb_id f)"
  shows "mset (moveBefore f b t) = mset f"
proof (cases "getBB f b")
  case None
  then show ?thesis by (simp add: moveBefore_def)
next
  case (Some blk)
  then have in_f: "blk \<in> set f" "bb_id blk = b" using getBB_SomeD by auto
  show ?thesis using Some mset_removeBB [OF assms in_f(1)] in_f(2)
    by (simp add: moveBefore_def mset_insertBefore)
qed

lemma moveBefore_ids:
  assumes "distinct (map bb_id f)"
  shows "distinct (map bb_id (moveBefore f b t))" "set (moveBefore f b t) = set f"
proof -
  have m: "mset (map bb_id (moveBefore f b t)) = mset (map bb_id f)"
    using mset_moveBefore [OF assms, of b t] by (metis mset_map)
  show "distinct (map bb_id (moveBefore f b t))"
    using m assms by (metis mset_eq_imp_distinct_iff)
  show "set (moveBefore f b t) = set f"
    using mset_moveBefore [OF assms, of b t] by (metis set_mset_mset)
qed

lemma getBB_moveBefore:
  "distinct (map bb_id f) \<Longrightarrow> getBB (moveBefore f b t) x = getBB f x"
  by (rule getBB_cong_set) (simp_all add: moveBefore_ids)

subsection \<open>Stages\<close>

lemma saveOrigBB_eq:
  "saveOrigBB f acc =
     (if \<exists>blk\<in>set f. isa_InvokeInst (bb_term blk) then None else Some (acc @ map bb_id f))"
  by (induction f arbitrary: acc) auto

lemma index_of_mem: "x \<in> set xs \<Longrightarrow> index_of xs x < length xs \<and> xs ! index_of xs x = x"
  by (induction xs) auto

lemma index_of_notin: "x \<notin> set xs \<Longrightarrow> index_of xs x = length xs"
  by (induction xs) auto

lemma index_of_le: "index_of xs x \<le> length xs"
  by (induction xs) auto

lemma index_of_lt_iff: "index_of xs x < length xs \<longleftrightarrow> x \<in> set xs"
proof (cases "x \<in> set xs")
  case True then show ?thesis by (simp add: index_of_mem)
next
  case False then show ?thesis by (simp add: index_of_notin)
qed

lemma concat_map_other:
  "\<forall>blk\<in>set r. bb_id blk \<noteq> old \<Longrightarrow>
   concat (map (\<lambda>blk. if bb_id blk = old then [h1 blk, h2 blk] else [blk]) r) = r"
  by (induction r) auto

lemma take_drop_last:
  "take (length xs - 1) xs = butlast xs"
  "drop (length xs - 1) xs = (if xs = [] then [] else [last xs])"
proof -
  show "take (length xs - 1) xs = butlast xs" by (simp add: butlast_conv_take)
  show "drop (length xs - 1) xs = (if xs = [] then [] else [last xs])"
  proof (cases xs rule: rev_cases)
    case Nil then show ?thesis by simp
  next
    case (snoc ys y) then show ?thesis by simp
  qed
qed

lemma splitEntry_Cons:
  assumes "distinct (map bb_id (e # r))"
  shows "splitEntry (e # r) ob =
     (if getNumSuccessors (bb_term e) > 1
      then (e\<lparr>bb_insts := butlast (bb_insts e), bb_term := Br (newBB (e # r))\<rparr>
              # firstBB e (newBB (e # r)) # r, newBB (e # r) # ob)
      else (e # r, ob))"
proof -
  have c: "(isa_BranchInst (bb_term e) \<and> isConditional (bb_term e)) \<or> getNumSuccessors (bb_term e) > 1
        \<longleftrightarrow> getNumSuccessors (bb_term e) > 1"
    by (cases "bb_term e") (auto simp: getNumSuccessors_def)
  have o: "\<forall>blk\<in>set r. bb_id blk \<noteq> bb_id e" using assms by (auto simp: image_iff)
  show ?thesis
    unfolding splitEntry_def
    by (simp add: c splitBasicBlock_def Let_def concat_map_other [OF o] take_drop_last firstBB_def
        del: One_nat_def)
qed

lemma loopBB_sel [simp]:
  "bb_id (loopBB L cs) = L" "bb_insts (loopBB L cs) = [load]"
  "bb_term (loopBB L cs) = Switch (InstV load) L cs"
  by (simp_all add: loopBB_def)

lemma prologueBB_sel [simp]:
  "bb_id (prologueBB e l0 L) = bb_id e"
  "bb_insts (prologueBB e l0 L) = bb_insts e @ [switchVar, StoreInst (ConstantInt32 l0) (InstV switchVar)]"
  "bb_term (prologueBB e l0 L) = Br L"
  by (simp_all add: prologueBB_def)

lemma updateBB_Cons_hd:
  "\<forall>blk\<in>set r. bb_id blk \<noteq> bb_id e \<Longrightarrow> updateBB (e # r) (bb_id e) g = g e # r"
  by (simp add: updateBB_def map_idI)

lemma buildLoop_Cons:
  assumes d: "distinct (map bb_id (e # ds))" and ne: "bbIndex \<noteq> []"
  shows "buildLoop (e # ds) (bb_id e) bbIndex =
           Inr (prologueBB e (bbIndex ! 0) (newBB (e # ds)) # loopBB (newBB (e # ds)) [] # ds,
                newBB (e # ds))"
proof -
  let ?L = "newBB (e # ds)"
  let ?g = "\<lambda>blk. blk\<lparr>bb_insts := bb_insts blk @ [switchVar, StoreInst (ConstantInt32 (bbIndex ! 0)) (InstV switchVar)]\<rparr>"
  have o: "\<forall>blk\<in>set ds. bb_id blk \<noteq> bb_id e" using d by (auto simp: image_iff)
  have fr: "?L \<noteq> bb_id e" "\<forall>blk\<in>set ds. bb_id blk \<noteq> ?L"
    using newBB_fresh [of "e # ds"] by (auto simp: image_iff)
  have v: "vec_at bbIndex 0 = Inr (bbIndex ! 0)" using ne by (simp add: vec_at_def)
  have f1: "updateBB (e # ds) (bb_id e) ?g = ?g e # ds"
    by (rule updateBB_Cons_hd [OF o])
  have nb: "newBB (?g e # ds) = ?L" by (simp add: newBB_def)
  have f2: "insertBefore (?g e # ds) (loopBB ?L []) (bb_id e) = loopBB ?L [] # ?g e # ds"
    by (simp add: insertBefore_def)
  have rm: "removeBB (loopBB ?L [] # ?g e # ds) (bb_id e) = loopBB ?L [] # ds"
    using fr o by (simp add: removeBB_def filter_id_conv)
  have f3: "moveBefore (loopBB ?L [] # ?g e # ds) (bb_id e) ?L = ?g e # loopBB ?L [] # ds"
    using fr by (simp add: moveBefore_def getBB_def rm insertBefore_def)
  have f4: "updateBB (?g e # loopBB ?L [] # ds) (bb_id e) (\<lambda>blk. blk\<lparr>bb_term := Br ?L\<rparr>)
            = prologueBB e (bbIndex ! 0) ?L # loopBB ?L [] # ds"
    using fr o by (simp add: updateBB_def prologueBB_def map_idI)
  have "buildLoop (e # ds) (bb_id e) bbIndex =
      Inr (updateBB (moveBefore (insertBefore (updateBB (e # ds) (bb_id e) ?g)
             (loopBB (newBB (updateBB (e # ds) (bb_id e) ?g)) []) (bb_id e))
             (bb_id e) (newBB (updateBB (e # ds) (bb_id e) ?g)))
             (bb_id e) (\<lambda>blk. blk\<lparr>bb_term := Br (newBB (updateBB (e # ds) (bb_id e) ?g))\<rparr>),
           newBB (updateBB (e # ds) (bb_id e) ?g))"
    by (simp add: buildLoop_def v Let_def loopBB_def)
  also have "\<dots> = Inr (prologueBB e (bbIndex ! 0) ?L # loopBB ?L [] # ds, ?L)"
    by (simp only: f1 nb f2 f3 f4)
  finally show ?thesis .
qed

lemma addCase_ids: "map bb_id (addCase f L k d) = map bb_id f"
  unfolding addCase_def by (rule map_id_updateBB) simp

lemma getBB_addCase:
  "getBB (addCase f L k d) x =
     (if x = L then map_option (\<lambda>blk. blk\<lparr>bb_term :=
        (case bb_term blk of Switch v d' cs \<Rightarrow> Switch v d' (cs @ [(k, d)]) | t \<Rightarrow> t)\<rparr>) (getBB f L)
      else getBB f x)"
  unfolding addCase_def by (rule getBB_updateBB) simp

lemma loopBB_addCase:
  "(loopBB L cs)\<lparr>bb_term := (case bb_term (loopBB L cs) of
        Switch v d' cs' \<Rightarrow> Switch v d' (cs' @ [(k, d)]) | t \<Rightarrow> t)\<rparr> = loopBB L (cs @ [(k, d)])"
  by (simp add: loopBB_def)

lemma putInSwitch_char:
  assumes "distinct (map bb_id f)"
    and "\<forall>b\<in>set bs. b < length origBB \<and> b < length bbIndex"
    and "getBB f L = Some (loopBB L cs)"
  shows "\<exists>f'. putInSwitch origBB bbIndex L bs f = Inr f'
           \<and> distinct (map bb_id f') \<and> set (map bb_id f') = set (map bb_id f)
           \<and> (\<forall>x. x \<noteq> L \<longrightarrow> getBB f' x = getBB f x)
           \<and> getBB f' L = Some (loopBB L (cs @ map (\<lambda>b. (bbIndex ! b, origBB ! b)) bs))"
  using assms
proof (induction bs arbitrary: f cs)
  case Nil
  then show ?case by simp
next
  case (Cons b bs)
  let ?f1 = "addCase (moveBefore f (origBB ! b) L) L (bbIndex ! b) (origBB ! b)"
  have d1: "distinct (map bb_id ?f1)"
    using moveBefore_ids(1) [OF Cons.prems(1)] by (simp add: addCase_ids)
  have s1: "set (map bb_id ?f1) = set (map bb_id f)"
    using moveBefore_ids(2) [OF Cons.prems(1), of "origBB ! b" L] by (simp add: addCase_ids)
  have g1: "getBB ?f1 x = getBB f x" if "x \<noteq> L" for x
    using that by (simp add: getBB_addCase getBB_moveBefore [OF Cons.prems(1)])
  have gL: "getBB ?f1 L = Some (loopBB L (cs @ [(bbIndex ! b, origBB ! b)]))"
    using Cons.prems(3)
    by (simp add: getBB_addCase getBB_moveBefore [OF Cons.prems(1)] loopBB_addCase)
  have r: "\<forall>b\<in>set bs. b < length origBB \<and> b < length bbIndex" using Cons.prems(2) by simp
  from Cons.IH [OF d1 r gL] obtain f' where f':
    "putInSwitch origBB bbIndex L bs ?f1 = Inr f'"
    "distinct (map bb_id f')" "set (map bb_id f') = set (map bb_id ?f1)"
    "\<forall>x. x \<noteq> L \<longrightarrow> getBB f' x = getBB ?f1 x"
    "getBB f' L = Some (loopBB L ((cs @ [(bbIndex ! b, origBB ! b)]) @ map (\<lambda>b. (bbIndex ! b, origBB ! b)) bs))"
    by blast
  have "putInSwitch origBB bbIndex L (b # bs) f = Inr f'"
    using Cons.prems(2) f'(1) by (simp add: vec_at_def)
  then show ?case using f' s1 g1 by simp
qed

lemma moveBefore_Cons_other:
  assumes "bb_id e \<noteq> i" "bb_id e \<noteq> L"
  shows "moveBefore (e # r) i L = e # moveBefore r i L"
  using assms by (simp add: moveBefore_def getBB_def removeBB_def insertBefore_def split: option.splits)

lemma addCase_Cons_other: "bb_id e \<noteq> L \<Longrightarrow> addCase (e # r) L k d = e # addCase r L k d"
  by (simp add: addCase_def updateBB_def)

lemma putInSwitch_hd:
  assumes "putInSwitch origBB bbIndex L bs (e # r) = Inr f'"
    and "bb_id e \<noteq> L" and "bb_id e \<notin> set origBB"
  shows "\<exists>r'. f' = e # r'"
  using assms
proof (induction bs arbitrary: r)
  case Nil
  then show ?case by auto
next
  case (Cons b bs)
  from Cons.prems(1) have b: "b < length origBB" "b < length bbIndex"
    by (auto simp: vec_at_def split: if_splits)
  then have ne: "bb_id e \<noteq> origBB ! b" using Cons.prems(3) by (metis nth_mem)
  have "putInSwitch origBB bbIndex L bs (e # addCase (moveBefore r (origBB ! b) L) L (bbIndex ! b) (origBB ! b)) = Inr f'"
    using Cons.prems(1) b
    by (simp add: vec_at_def moveBefore_Cons_other [OF ne Cons.prems(2)] addCase_Cons_other [OF Cons.prems(2)])
  from Cons.IH [OF this Cons.prems(2,3)] show ?case .
qed

subsection \<open>recalculate\<close>

lemma recalcBB_Inr:
  assumes "recalcBB origBB bbIndex bbSeq L b f = Inr f'" and "distinct (map bb_id f)"
  shows "b < length origBB \<and> map bb_id f' = map bb_id f
         \<and> (\<forall>x. x \<noteq> origBB ! b \<longrightarrow> getBB f' x = getBB f x)
         \<and> (\<exists>blk blk'. getBB f (origBB ! b) = Some blk
               \<and> rewriteBB origBB bbIndex bbSeq L b blk = Inr blk'
               \<and> getBB f' (origBB ! b) = Some blk')"
proof -
  from assms(1) have b: "b < length origBB"
    by (auto simp: recalcBB_def vec_at_def split: if_splits)
  from assms(1) b obtain blk blk' where
    g: "getBB f (origBB ! b) = Some blk"
    and rw: "rewriteBB origBB bbIndex bbSeq L b blk = Inr blk'"
    and f': "f' = updateBB f (origBB ! b) (\<lambda>old. blk')"
    by (auto simp: recalcBB_def vec_at_def split: option.splits sum.splits)
  have idb: "bb_id blk = origBB ! b" using g getBB_SomeD by blast
  have idb': "bb_id blk' = bb_id blk"
    using rw by (auto simp: rewriteBB_def split: if_splits sum.splits)
  have upd: "f' = updateBB f (origBB ! b) (\<lambda>old. old\<lparr>bb_insts := bb_insts blk', bb_term := bb_term blk'\<rparr>)"
    unfolding f' updateBB_def
  proof (rule map_cong [OF refl])
    fix x assume "x \<in> set f"
    then have "bb_id x = origBB ! b \<Longrightarrow> x = blk"
      using getBB_SomeD [OF g] assms(2) by (simp add: distinct_map inj_on_def)
    then show "(if bb_id x = origBB ! b then blk' else x) =
          (if bb_id x = origBB ! b then x\<lparr>bb_insts := bb_insts blk', bb_term := bb_term blk'\<rparr> else x)"
      using idb' by auto
  qed
  have m: "map bb_id f' = map bb_id f" unfolding upd by (rule map_id_updateBB) simp
  have o: "\<forall>x. x \<noteq> origBB ! b \<longrightarrow> getBB f' x = getBB f x"
    unfolding upd by (simp add: getBB_updateBB)
  have s: "getBB f' (origBB ! b) = Some blk'"
    unfolding upd using g idb' by (simp add: getBB_updateBB)
  show ?thesis using b m o s g rw by blast
qed

lemma recalcBB_Inl:
  assumes "recalcBB origBB bbIndex bbSeq L b f = Inl err"
    and "b < length origBB" and "origBB ! b \<in> bb_id ` set f"
  shows "\<exists>blk. getBB f (origBB ! b) = Some blk \<and> rewriteBB origBB bbIndex bbSeq L b blk = Inl err"
  using assms
  by (auto simp: recalcBB_def vec_at_def getBB_None_iff split: option.splits sum.splits)

lemma recalculate_char:
  assumes "distinct (map bb_id f)" and "distinct (map ((!) origBB) bs)"
    and "\<forall>b\<in>set bs. b < length origBB \<and> origBB ! b \<in> bb_id ` set f"
  shows "case recalculate origBB bbIndex bbSeq L bs f of
           Inl err \<Rightarrow> \<exists>b\<in>set bs. \<exists>blk. getBB f (origBB ! b) = Some blk
                        \<and> rewriteBB origBB bbIndex bbSeq L b blk = Inl err
         | Inr f' \<Rightarrow> map bb_id f' = map bb_id f
              \<and> (\<forall>x. x \<notin> (!) origBB ` set bs \<longrightarrow> getBB f' x = getBB f x)
              \<and> (\<forall>b\<in>set bs. \<exists>blk blk'. getBB f (origBB ! b) = Some blk
                    \<and> rewriteBB origBB bbIndex bbSeq L b blk = Inr blk'
                    \<and> getBB f' (origBB ! b) = Some blk')"
  using assms
proof (induction bs arbitrary: f)
  case Nil
  then show ?case by simp
next
  case (Cons b bs)
  have b: "b < length origBB" "origBB ! b \<in> bb_id ` set f" using Cons.prems(3) by auto
  show ?case
  proof (cases "recalcBB origBB bbIndex bbSeq L b f")
    case (Inl err)
    from recalcBB_Inl [OF Inl b] show ?thesis using Inl by auto
  next
    case (Inr f1)
    from recalcBB_Inr [OF Inr Cons.prems(1)] obtain blk blk' where
      ids1: "map bb_id f1 = map bb_id f"
      and oth: "\<forall>x. x \<noteq> origBB ! b \<longrightarrow> getBB f1 x = getBB f x"
      and g: "getBB f (origBB ! b) = Some blk"
      and rw: "rewriteBB origBB bbIndex bbSeq L b blk = Inr blk'"
      and g1: "getBB f1 (origBB ! b) = Some blk'"
      by blast
    have d1: "distinct (map bb_id f1)" using ids1 Cons.prems(1) by simp
    have dd: "distinct (map ((!) origBB) bs)" using Cons.prems(2) by simp
    have ne: "\<forall>b'\<in>set bs. origBB ! b' \<noteq> origBB ! b" using Cons.prems(2) by (auto simp: image_iff)
    have set1: "bb_id ` set f1 = bb_id ` set f" using ids1 by (metis set_map)
    have r: "\<forall>b\<in>set bs. b < length origBB \<and> origBB ! b \<in> bb_id ` set f1"
      using Cons.prems(3) set1 by simp
    note IH = Cons.IH [OF d1 dd r]
    show ?thesis
    proof (cases "recalculate origBB bbIndex bbSeq L bs f1")
      case (Inl err)
      with IH obtain b' blk1 where "b' \<in> set bs" "getBB f1 (origBB ! b') = Some blk1"
        "rewriteBB origBB bbIndex bbSeq L b' blk1 = Inl err" by auto
      moreover from this ne oth have "getBB f (origBB ! b') = Some blk1" by simp
      ultimately show ?thesis using Inl Inr by auto
    next
      case Inr2: (Inr f')
      with IH have
        i1: "map bb_id f' = map bb_id f1"
        and i2: "\<forall>x. x \<notin> (!) origBB ` set bs \<longrightarrow> getBB f' x = getBB f1 x"
        and i3: "\<forall>b\<in>set bs. \<exists>blk blk'. getBB f1 (origBB ! b) = Some blk
                    \<and> rewriteBB origBB bbIndex bbSeq L b blk = Inr blk'
                    \<and> getBB f' (origBB ! b) = Some blk'"
        by auto
      have nb: "origBB ! b \<notin> (!) origBB ` set bs" using ne by auto
      have c1: "map bb_id f' = map bb_id f" using i1 ids1 by simp
      have c2: "\<forall>x. x \<notin> (!) origBB ` set (b # bs) \<longrightarrow> getBB f' x = getBB f x"
        using i2 oth by auto
      have c3: "\<exists>blk blk'. getBB f (origBB ! b) = Some blk
                    \<and> rewriteBB origBB bbIndex bbSeq L b blk = Inr blk'
                    \<and> getBB f' (origBB ! b) = Some blk'"
        using g rw g1 i2 nb by simp
      have c4: "\<forall>b\<in>set bs. \<exists>blk blk'. getBB f (origBB ! b) = Some blk
                    \<and> rewriteBB origBB bbIndex bbSeq L b blk = Inr blk'
                    \<and> getBB f' (origBB ! b) = Some blk'"
        using i3 ne oth by simp
      show ?thesis using Inr Inr2 c1 c2 c3 c4 by simp
    qed
  qed
qed

lemma perm_upt:
  assumes "mset bs = mset [0..<n]"
  shows "set bs = {0..<n}" "distinct bs" "length bs = n"
proof -
  show "set bs = {0..<n}" using assms by (metis mset_eq_setD set_upt)
  show "distinct bs" using assms by (metis distinct_upt mset_eq_imp_distinct_iff)
  show "length bs = n" using assms by (metis length_upt mset_eq_length minus_nat.diff_0)
qed

lemma buildDispatch_char:
  fixes rnd :: "nat \<Rightarrow> u32" and sh :: "nat list \<Rightarrow> nat list"
  assumes d: "distinct (map bb_id (e1 # ds))" and ne: "ds \<noteq> []"
    and perm: "mset (sh [0..<length ds]) = mset [0..<length ds]"
  defines "origBB \<equiv> map bb_id ds"
    and "bbIndex \<equiv> map rnd [0..<length ds]"
    and "bbSeq \<equiv> sh [0..<length ds]"
    and "L \<equiv> newBB (e1 # ds)"
  shows "case buildDispatch rnd sh (bb_id e1) (e1 # ds) (map bb_id ds) of
           Inl err \<Rightarrow> \<exists>k<length ds. rewriteBB origBB bbIndex bbSeq L k (ds ! k) = Inl err
         | Inr st \<Rightarrow>
             fl_origBB st = origBB \<and> fl_bbIndex st = bbIndex \<and> fl_bbSeq st = bbSeq
             \<and> fl_loopEntry st = L \<and> fl_split st = e1 # ds
             \<and> distinct (map bb_id (fl_func st))
             \<and> set (map bb_id (fl_func st)) = insert L (set (map bb_id (e1 # ds)))
             \<and> (\<exists>r'. fl_func st = prologueBB e1 (rnd 0) L # r')
             \<and> getBB (fl_func st) L = Some (loopBB L (map (\<lambda>b. (bbIndex ! b, origBB ! b)) bbSeq))
             \<and> (\<forall>k<length ds. \<exists>blk'. rewriteBB origBB bbIndex bbSeq L k (ds ! k) = Inr blk'
                    \<and> getBB (fl_func st) (origBB ! k) = Some blk')"
proof -
  let ?P = "prologueBB e1 (rnd 0) L"
  let ?f2 = "?P # loopBB L [] # ds"
  have n: "length origBB = length ds" by (simp add: origBB_def)
  have bl: "buildLoop (e1 # ds) (bb_id e1) bbIndex = Inr (?f2, L)"
    using buildLoop_Cons [OF d, of bbIndex] ne
    by (simp add: bbIndex_def L_def upt_conv_Cons)
  have frL: "L \<notin> set (map bb_id (e1 # ds))" unfolding L_def by (rule newBB_fresh)
  have d2: "distinct (map bb_id ?f2)" using d frL by auto
  have bs: "set bbSeq = {0..<length ds}" "distinct bbSeq" "length bbSeq = length ds"
    using perm_upt [OF perm] by (simp_all add: bbSeq_def)
  have rng: "\<forall>b\<in>set bbSeq. b < length origBB \<and> b < length bbIndex"
    using bs(1) by (simp add: n bbIndex_def)
  have gL2: "getBB ?f2 L = Some (loopBB L [])"
    using frL by (simp add: getBB_def)
  from putInSwitch_char [OF d2 rng gL2] obtain f3 where
    p3: "putInSwitch origBB bbIndex L bbSeq ?f2 = Inr f3"
    and d3: "distinct (map bb_id f3)"
    and s3: "set (map bb_id f3) = set (map bb_id ?f2)"
    and o3: "\<forall>x. x \<noteq> L \<longrightarrow> getBB f3 x = getBB ?f2 x"
    and gL3: "getBB f3 L = Some (loopBB L ([] @ map (\<lambda>b. (bbIndex ! b, origBB ! b)) bbSeq))"
    by blast
  have eo: "bb_id e1 \<notin> set origBB" using d by (simp add: origBB_def)
  have eL: "bb_id ?P \<noteq> L" using frL by auto
  from putInSwitch_hd [OF p3 eL] eo obtain r3 where f3: "f3 = ?P # r3" by auto
  have dob: "distinct origBB" using d by (simp add: origBB_def)
  have dmap: "distinct (map ((!) origBB) bbSeq)"
    using dob bs(1,2) by (auto simp: distinct_map inj_on_def n nth_eq_iff_index_eq)
  have ob: "origBB ! k = bb_id (ds ! k)" if "k < length ds" for k
    using that by (simp add: origBB_def)
  have obL: "origBB ! k \<noteq> L" if "k < length ds" for k
    using that frL ob [OF that] by (metis list.set_intros(2) list.simps(9) nth_mem set_map image_eqI)
  have obe: "origBB ! k \<noteq> bb_id e1" if "k < length ds" for k
    using that eo n by (metis nth_mem)
  have dds: "distinct (map bb_id ds)" using d by simp
  have g2: "getBB ?f2 (origBB ! k) = Some (ds ! k)" if "k < length ds" for k
  proof -
    have "getBB ds (origBB ! k) = Some (ds ! k)"
      using that ob [OF that] by (simp add: getBB_Some_iff [OF dds])
    then show ?thesis using obL [OF that] obe [OF that] by (simp add: getBB_def)
  qed
  have g3: "getBB f3 (origBB ! k) = Some (ds ! k)" if "k < length ds" for k
    using o3 obL [OF that] g2 [OF that] by simp
  have in3: "\<forall>b\<in>set bbSeq. b < length origBB \<and> origBB ! b \<in> bb_id ` set f3"
  proof
    fix b assume "b \<in> set bbSeq"
    then have lt: "b < length ds" using bs(1) by simp
    from g3 [OF lt] have "getBB f3 (origBB ! b) \<noteq> None" by simp
    then show "b < length origBB \<and> origBB ! b \<in> bb_id ` set f3"
      using lt n by (simp add: getBB_None_iff)
  qed
  note rc = recalculate_char [OF d3 dmap in3, of bbIndex bbSeq L]
  have bd: "buildDispatch rnd sh (bb_id e1) (e1 # ds) (map bb_id ds) =
      (case recalculate origBB bbIndex bbSeq L bbSeq f3 of
         Inl e \<Rightarrow> Inl e
       | Inr f4 \<Rightarrow> Inr \<lparr>fl_origBB = origBB, fl_bbIndex = bbIndex, fl_bbSeq = bbSeq,
                        fl_loopEntry = L, fl_split = e1 # ds, fl_func = f4\<rparr>)"
    using bl p3 unfolding buildDispatch_def Let_def origBB_def bbIndex_def bbSeq_def length_map
    by simp
  show ?thesis
  proof (cases "recalculate origBB bbIndex bbSeq L bbSeq f3")
    case (Inl err)
    with rc obtain b blk where "b \<in> set bbSeq" "getBB f3 (origBB ! b) = Some blk"
      "rewriteBB origBB bbIndex bbSeq L b blk = Inl err" by auto
    moreover from this bs(1) have "b < length ds" by simp
    ultimately have "\<exists>k<length ds. rewriteBB origBB bbIndex bbSeq L k (ds ! k) = Inl err"
      using g3 by auto
    then show ?thesis using Inl bd by simp
  next
    case (Inr f4)
    with rc have
      i1: "map bb_id f4 = map bb_id f3"
      and i2: "\<forall>x. x \<notin> (!) origBB ` set bbSeq \<longrightarrow> getBB f4 x = getBB f3 x"
      and i3: "\<forall>b\<in>set bbSeq. \<exists>blk blk'. getBB f3 (origBB ! b) = Some blk
                    \<and> rewriteBB origBB bbIndex bbSeq L b blk = Inr blk'
                    \<and> getBB f4 (origBB ! b) = Some blk'"
      by auto
    have img: "(!) origBB ` set bbSeq = set origBB"
      using bs(1) n by (auto simp: set_conv_nth)
    have c1: "distinct (map bb_id f4)" using i1 d3 by simp
    have c2: "set (map bb_id f4) = insert L (set (map bb_id (e1 # ds)))"
      using i1 s3 by auto
    have Ln: "L \<notin> (!) origBB ` set bbSeq" using frL img by (simp add: origBB_def)
    have c4: "getBB f4 L = Some (loopBB L (map (\<lambda>b. (bbIndex ! b, origBB ! b)) bbSeq))"
      using i2 Ln gL3 by simp
    have Pn: "bb_id ?P \<notin> (!) origBB ` set bbSeq" using eo img by simp
    have gP4: "getBB f4 (bb_id ?P) = Some ?P"
      using i2 Pn f3 by (simp add: getBB_def)
    obtain x r4 where f4: "f4 = x # r4" "bb_id x = bb_id ?P"
      using i1 f3 by (cases f4) auto
    then have "x = ?P" using gP4 by (simp add: getBB_def)
    then have c3: "\<exists>r'. f4 = ?P # r'" using f4 by simp
    have c5: "\<forall>k<length ds. \<exists>blk'. rewriteBB origBB bbIndex bbSeq L k (ds ! k) = Inr blk'
                    \<and> getBB f4 (origBB ! k) = Some blk'"
    proof (intro allI impI)
      fix k assume k: "k < length ds"
      then have "k \<in> set bbSeq" using bs(1) by simp
      with i3 obtain blk blk' where "getBB f3 (origBB ! k) = Some blk"
        "rewriteBB origBB bbIndex bbSeq L k blk = Inr blk'" "getBB f4 (origBB ! k) = Some blk'"
        by blast
      then show "\<exists>blk'. rewriteBB origBB bbIndex bbSeq L k (ds ! k) = Inr blk'
                    \<and> getBB f4 (origBB ! k) = Some blk'"
        using g3 [OF k] by auto
    qed
    show ?thesis using Inr bd c1 c2 c3 c4 c5 by simp
  qed
qed

lemma flattenCore_None_iff:
  "flattenCore rnd sh f = Inr None \<longleftrightarrow> (\<exists>blk\<in>set f. isa_InvokeInst (bb_term blk)) \<or> length f \<le> 1"
  by (auto simp: flattenCore_def saveOrigBB_eq Let_def split: prod.splits sum.splits)

lemma splitEntry_shape:
  assumes d: "distinct (map bb_id (e # r))"
  shows "\<exists>e1 ds. splitEntry (e # r) (map bb_id r) = (e1 # ds, map bb_id ds)
            \<and> bb_id e1 = bb_id e \<and> distinct (map bb_id (e1 # ds))
            \<and> (if getNumSuccessors (bb_term e) > 1
                then e1 = e\<lparr>bb_insts := butlast (bb_insts e), bb_term := Br (newBB (e # r))\<rparr>
                     \<and> ds = firstBB e (newBB (e # r)) # r
                else e1 = e \<and> ds = r)"
proof (cases "getNumSuccessors (bb_term e) > 1")
  case True
  have fr: "newBB (e # r) \<notin> set (map bb_id (e # r))" by (rule newBB_fresh)
  show ?thesis
    using True d fr by (simp add: splitEntry_Cons [OF d] firstBB_def)
next
  case False
  then show ?thesis using d by (simp add: splitEntry_Cons [OF d])
qed

lemma flattenCore_char:
  fixes rnd :: "nat \<Rightarrow> u32" and sh :: "nat list \<Rightarrow> nat list"
  assumes d: "distinct (map bb_id f)"
    and perm: "\<forall>xs. mset (sh xs) = mset xs"
    and ok: "\<not> (\<exists>blk\<in>set f. isa_InvokeInst (bb_term blk))" "length f > 1"
  shows "\<exists>e1 ds. splitEntry f (map bb_id (tl f)) = (e1 # ds, map bb_id ds)
          \<and> bb_id e1 = bb_id (hd f) \<and> distinct (map bb_id (e1 # ds)) \<and> ds \<noteq> []
          \<and> (if getNumSuccessors (bb_term (hd f)) > 1
               then e1 = (hd f)\<lparr>bb_insts := butlast (bb_insts (hd f)), bb_term := Br (newBB f)\<rparr>
                    \<and> ds = firstBB (hd f) (newBB f) # tl f
               else e1 = hd f \<and> ds = tl f)
          \<and> (case flattenCore rnd sh f of
               Inl err \<Rightarrow> \<exists>k<length ds. rewriteBB (map bb_id ds) (map rnd [0..<length ds])
                              (sh [0..<length ds]) (newBB (e1 # ds)) k (ds ! k) = Inl err
             | Inr None \<Rightarrow> False
             | Inr (Some st) \<Rightarrow>
                 fl_origBB st = map bb_id ds \<and> fl_bbIndex st = map rnd [0..<length ds]
                 \<and> fl_bbSeq st = sh [0..<length ds]
                 \<and> fl_loopEntry st = newBB (e1 # ds) \<and> fl_split st = e1 # ds
                 \<and> distinct (map bb_id (fl_func st))
                 \<and> set (map bb_id (fl_func st)) = insert (newBB (e1 # ds)) (set (map bb_id (e1 # ds)))
                 \<and> (\<exists>r'. fl_func st = prologueBB e1 (rnd 0) (newBB (e1 # ds)) # r')
                 \<and> getBB (fl_func st) (newBB (e1 # ds))
                     = Some (loopBB (newBB (e1 # ds))
                         (map (\<lambda>b. (map rnd [0..<length ds] ! b, map bb_id ds ! b)) (sh [0..<length ds])))
                 \<and> (\<forall>k<length ds. \<exists>blk'. rewriteBB (map bb_id ds) (map rnd [0..<length ds])
                              (sh [0..<length ds]) (newBB (e1 # ds)) k (ds ! k) = Inr blk'
                        \<and> getBB (fl_func st) (map bb_id ds ! k) = Some blk'))"
proof -
  from ok(2) obtain e r where f: "f = e # r" and r: "r \<noteq> []"
    by (cases f) auto
  from splitEntry_shape [OF d [unfolded f]] obtain e1 ds where
    sp: "splitEntry (e # r) (map bb_id r) = (e1 # ds, map bb_id ds)"
    and ide: "bb_id e1 = bb_id e" and d1: "distinct (map bb_id (e1 # ds))"
    and sh: "if getNumSuccessors (bb_term e) > 1
                then e1 = e\<lparr>bb_insts := butlast (bb_insts e), bb_term := Br (newBB (e # r))\<rparr>
                     \<and> ds = firstBB e (newBB (e # r)) # r
                else e1 = e \<and> ds = r"
    by blast
  have ne: "ds \<noteq> []" using sh r by (auto split: if_splits)
  have fc: "flattenCore rnd sh f =
      (case buildDispatch rnd sh (bb_id e1) (e1 # ds) (map bb_id ds) of
         Inl e \<Rightarrow> Inl e | Inr st \<Rightarrow> Inr (Some st))"
    using ok r sp by (simp add: flattenCore_def saveOrigBB_eq f Let_def ide)
  have p: "mset (sh [0..<length ds]) = mset [0..<length ds]" using perm by simp
  note bd = buildDispatch_char [where sh = sh and rnd = rnd and ds = ds, OF d1 ne p]
  show ?thesis
  proof (intro exI conjI)
    show "splitEntry f (map bb_id (tl f)) = (e1 # ds, map bb_id ds)" using sp f by simp
    show "bb_id e1 = bb_id (hd f)" using ide f by simp
    show "distinct (map bb_id (e1 # ds))" by (rule d1)
    show "ds \<noteq> []" by (rule ne)
    show "if getNumSuccessors (bb_term (hd f)) > 1
               then e1 = (hd f)\<lparr>bb_insts := butlast (bb_insts (hd f)), bb_term := Br (newBB f)\<rparr>
                    \<and> ds = firstBB (hd f) (newBB f) # tl f
               else e1 = hd f \<and> ds = tl f"
      using sh f by simp
    show "case flattenCore rnd sh f of
               Inl err \<Rightarrow> \<exists>k<length ds. rewriteBB (map bb_id ds) (map rnd [0..<length ds])
                              (sh [0..<length ds]) (newBB (e1 # ds)) k (ds ! k) = Inl err
             | Inr None \<Rightarrow> False
             | Inr (Some st) \<Rightarrow>
                 fl_origBB st = map bb_id ds \<and> fl_bbIndex st = map rnd [0..<length ds]
                 \<and> fl_bbSeq st = sh [0..<length ds]
                 \<and> fl_loopEntry st = newBB (e1 # ds) \<and> fl_split st = e1 # ds
                 \<and> distinct (map bb_id (fl_func st))
                 \<and> set (map bb_id (fl_func st)) = insert (newBB (e1 # ds)) (set (map bb_id (e1 # ds)))
                 \<and> (\<exists>r'. fl_func st = prologueBB e1 (rnd 0) (newBB (e1 # ds)) # r')
                 \<and> getBB (fl_func st) (newBB (e1 # ds))
                     = Some (loopBB (newBB (e1 # ds))
                         (map (\<lambda>b. (map rnd [0..<length ds] ! b, map bb_id ds ! b)) (sh [0..<length ds])))
                 \<and> (\<forall>k<length ds. \<exists>blk'. rewriteBB (map bb_id ds) (map rnd [0..<length ds])
                              (sh [0..<length ds]) (newBB (e1 # ds)) k (ds ! k) = Inr blk'
                        \<and> getBB (fl_func st) (map bb_id ds ! k) = Some blk')"
      using bd unfolding fc
      by (cases "buildDispatch rnd sh (bb_id e1) (e1 # ds) (map bb_id ds)") simp_all
  qed
qed

lemma exProc_flat: "flattenCore exLabel rev exProc = Inr (Some exFlat)"
  by code_simp

lemma rewriteBB_InrD:
  assumes "rewriteBB origBB bbIndex bbSeq L k blk = Inr blk'"
  shows "(successors (bb_term blk) = [] \<longrightarrow> blk' = blk)
       \<and> (successors (bb_term blk) \<noteq> [] \<longrightarrow>
            (\<exists>c iT iF. succIndex origBB bbSeq k (bb_term blk) = Inr (c, iT, iF)
               \<and> k < length bbIndex \<and> iT < length bbIndex \<and> iF < length bbIndex
               \<and> blk' = blk\<lparr>bb_insts := bb_insts blk
                             @ newInsts c (bbIndex ! k) (bbIndex ! iT) (bbIndex ! iF),
                           bb_term := Br L\<rparr>))"
  using assms
  by (auto simp: rewriteBB_def getNumSuccessors_def split: if_splits sum.splits)

lemma getBB_split_nth:
  assumes "distinct (map bb_id (e1 # ds))" "k < length ds"
  shows "getBB (e1 # ds) (map bb_id ds ! k) = Some (ds ! k)"
proof -
  have "ds ! k \<in> set (e1 # ds)" using assms(2) by simp
  then show ?thesis using assms by (simp add: getBB_Some_iff [OF assms(1)])
qed

text \<open>What one gets from a successful run.\<close>

lemma flattenCore_SomeD:
  fixes rnd :: "nat \<Rightarrow> u32" and sh :: "nat list \<Rightarrow> nat list"
  assumes run: "flattenCore rnd sh f = Inr (Some st)"
    and d: "distinct (map bb_id f)"
    and perm: "\<forall>xs. mset (sh xs) = mset xs"
  shows "\<exists>e1 ds. splitEntry f (map bb_id (tl f)) = (e1 # ds, map bb_id ds)
          \<and> bb_id e1 = bb_id (hd f) \<and> distinct (map bb_id (e1 # ds)) \<and> ds \<noteq> []
          \<and> (if getNumSuccessors (bb_term (hd f)) > 1
               then e1 = (hd f)\<lparr>bb_insts := butlast (bb_insts (hd f)), bb_term := Br (newBB f)\<rparr>
                    \<and> ds = firstBB (hd f) (newBB f) # tl f
               else e1 = hd f \<and> ds = tl f)
          \<and> fl_origBB st = map bb_id ds \<and> fl_bbIndex st = map rnd [0..<length ds]
          \<and> fl_bbSeq st = sh [0..<length ds]
          \<and> fl_loopEntry st = newBB (e1 # ds) \<and> fl_split st = e1 # ds
          \<and> distinct (map bb_id (fl_func st))
          \<and> set (map bb_id (fl_func st)) = insert (newBB (e1 # ds)) (set (map bb_id (e1 # ds)))
          \<and> (\<exists>r'. fl_func st = prologueBB e1 (rnd 0) (newBB (e1 # ds)) # r')
          \<and> getBB (fl_func st) (newBB (e1 # ds))
              = Some (loopBB (newBB (e1 # ds))
                  (map (\<lambda>b. (map rnd [0..<length ds] ! b, map bb_id ds ! b)) (sh [0..<length ds])))
          \<and> (\<forall>k<length ds. \<exists>blk'. rewriteBB (map bb_id ds) (map rnd [0..<length ds])
                       (sh [0..<length ds]) (newBB (e1 # ds)) k (ds ! k) = Inr blk'
                 \<and> getBB (fl_func st) (map bb_id ds ! k) = Some blk')"
proof -
  have ok: "\<not> (\<exists>blk\<in>set f. isa_InvokeInst (bb_term blk))" "length f > 1"
    using run flattenCore_None_iff [of rnd sh f]
    by (auto simp: flattenCore_def saveOrigBB_eq split: if_splits)
  from flattenCore_char [OF d perm ok, of rnd] show ?thesis
    unfolding run by simp
qed

section \<open>Lemmas about the stages and their errors\<close>

lemma mset_rev_all: "\<forall>xs::nat list. mset (rev xs) = mset xs"
  by simp

lemma exProc_distinct: "distinct (map bb_id exProc)"
  by (simp add: exProc_def)

lemma count_list_distinct: "distinct ys \<Longrightarrow> y \<in> set ys \<Longrightarrow> count_list ys y = 1"
  by (induction ys) (auto simp: count_list_0_iff)

lemma count_list_map_inj:
  assumes "distinct xs" "inj_on g (set xs)" "x \<in> set xs"
  shows "count_list (map g xs) (g x) = 1"
proof -
  have "distinct (map g xs)" using assms by (simp add: distinct_map)
  moreover have "g x \<in> set (map g xs)" using assms(3) by simp
  ultimately show ?thesis by (rule count_list_distinct)
qed

lemma flattenCore_split:
  assumes "flattenCore rnd sh f = Inr (Some st)"
  shows "splitEntry f (map bb_id (tl f)) = (fl_split st, fl_origBB st)"
proof -
  obtain f1 origBB where sp: "splitEntry f (tl (map bb_id f)) = (f1, origBB)"
    by (cases "splitEntry f (tl (map bb_id f))")
  from assms have "fl_split st = f1 \<and> fl_origBB st = origBB"
    by (auto simp: flattenCore_def saveOrigBB_eq buildDispatch_def Let_def sp
             split: if_splits sum.splits prod.splits)
  then show ?thesis using sp by (simp add: map_tl)
qed

lemma c7Proc_flat: "flattenCore exLabel rev c7Proc = Inr (Some c7Flat)"
  by code_simp

lemma rewriteBB_Inl:
  assumes e: "rewriteBB origBB bbIndex bbSeq L k blk = Inl err"
    and len: "length origBB = length bbIndex" "length bbSeq = length bbIndex"
    and k: "k \<in> set bbSeq" "k < length bbIndex"
    and sub: "set (successors (bb_term blk)) \<subseteq> set origBB"
  shows "(err = AssertNumSuccessors \<and> getNumSuccessors (bb_term blk) > 2)
       \<or> (err = BadCast \<and> getNumSuccessors (bb_term blk) = 2 \<and> \<not> isConditional (bb_term blk))"
proof -
  have iT: "index_of bbSeq k < length bbIndex"
    using k(1) len(2) by (metis index_of_lt_iff)
  have iF: "index_of origBB s < length bbIndex" if "s \<in> set (successors (bb_term blk))" for s
    using that sub len(1) by (metis index_of_lt_iff subsetD)
  consider (z) "getNumSuccessors (bb_term blk) = 0" | (o) "getNumSuccessors (bb_term blk) = 1"
    | (t) "getNumSuccessors (bb_term blk) = 2" | (m) "getNumSuccessors (bb_term blk) > 2"
    by linarith
  then show ?thesis
  proof cases
    case z
    then show ?thesis using e by (simp add: rewriteBB_def)
  next
    case o
    then have "getSuccessor (bb_term blk) 0 \<in> set (successors (bb_term blk))"
      by (simp add: getNumSuccessors_def getSuccessor_def)
    from iF [OF this] show ?thesis using e o iT k(2)
      by (simp add: rewriteBB_def succIndex_def)
  next
    case t
    show ?thesis
    proof (cases "bb_term blk")
      case (CondBr c t1 t2)
      then have "index_of origBB t1 < length bbIndex" "index_of origBB t2 < length bbIndex"
        using iF by simp_all
      then show ?thesis using e CondBr k(2)
        by (simp add: rewriteBB_def succIndex_def getNumSuccessors_def getSuccessor_def)
    qed (use e t in \<open>auto simp: rewriteBB_def succIndex_def split: if_splits\<close>)
  next
    case m
    then show ?thesis using e by (auto simp: rewriteBB_def succIndex_def split: if_splits)
  qed
qed

text \<open>The dispatched blocks carry the terminators of the input blocks.\<close>

lemma dispatched_terms:
  assumes "if getNumSuccessors (bb_term (hd f)) > 1
               then e1 = (hd f)\<lparr>bb_insts := butlast (bb_insts (hd f)), bb_term := Br (newBB f)\<rparr>
                    \<and> ds = firstBB (hd f) (newBB f) # tl f
               else e1 = hd f \<and> ds = tl f"
    and "f \<noteq> []" and "blk \<in> set ds"
  shows "\<exists>blk0\<in>set f. bb_term blk = bb_term blk0"
  using assms by (cases f) (auto simp: firstBB_def split: if_splits)

lemma flattenCore_no_error:
  fixes rnd :: "nat \<Rightarrow> u32"
  assumes d: "distinct (map bb_id f)" and perm: "\<forall>xs. mset (shuffle xs) = mset xs"
    and ok: "\<not> (\<exists>blk\<in>set f. isa_InvokeInst (bb_term blk))" "length f > 1"
    and sub: "\<forall>blk\<in>set (dispatched f). set (successors (bb_term blk)) \<subseteq> bb_id ` set (dispatched f)"
    and err: "flattenCore rnd shuffle f = Inl err"
  shows "\<exists>blk\<in>set (dispatched f).
           (err = AssertNumSuccessors \<and> getNumSuccessors (bb_term blk) > 2)
         \<or> (err = BadCast \<and> getNumSuccessors (bb_term blk) = 2 \<and> \<not> isConditional (bb_term blk))"
proof -
  from flattenCore_char [OF d perm ok, of rnd] obtain e1 ds k where
    sp: "splitEntry f (map bb_id (tl f)) = (e1 # ds, map bb_id ds)"
    and k: "k < length ds"
    and rw: "rewriteBB (map bb_id ds) (map rnd [0..<length ds])
                 (shuffle [0..<length ds]) (newBB (e1 # ds)) k (ds ! k) = Inl err"
    unfolding err by auto
  have dd: "dispatched f = ds" by (simp add: dispatched_def sp)
  have p: "set (shuffle [0..<length ds]) = {0..<length ds}" "length (shuffle [0..<length ds]) = length ds"
    using perm_upt [of "shuffle [0..<length ds]" "length ds"] perm by simp_all
  have s: "set (successors (bb_term (ds ! k))) \<subseteq> set (map bb_id ds)"
    using sub k dd by simp
  from rewriteBB_Inl [OF rw _ _ _ _ s] k p
  have "(err = AssertNumSuccessors \<and> getNumSuccessors (bb_term (ds ! k)) > 2)
       \<or> (err = BadCast \<and> getNumSuccessors (bb_term (ds ! k)) = 2 \<and> \<not> isConditional (bb_term (ds ! k)))"
    by simp
  then show ?thesis using k dd by (metis nth_mem)
qed

lemma exProc_dispatched: "dispatched exProc = tl exProc"
  by code_simp

lemma xor_label_false: "(lb XOR lf) XOR lb = (lf::u32)"
  by (simp add: xor.commute xor.left_commute)

lemma xor_label_true: "(lt XOR lf) XOR lf = (lt::u32)"
  by (simp add: xor.assoc)

lemmas newInsts_defs =
  newInsts_def cond_def tempValFalse_def maskVal_def finalVal_def load_def switchVar_def

lemma exec_newInsts:
  assumes "map_of (regs c) load = Some lb"
  shows "\<exists>c'. exec_insts ex cv (newInsts cnd lb lt lf) c = Some c' \<and> ustate c' = ustate c
           \<and> eval32 (regs c') (InstV (finalVal cnd lb lt lf))
               = Some (if eval1 cv (ustate c) cnd then lt else lf)
           \<and> map_of (mem c') (InstV switchVar)
               = Some (if eval1 cv (ustate c) cnd then lt else lf)"
  using assms by (simp add: newInsts_defs xor_label_false xor_label_true)

section \<open>The flattened function simulates the original\<close>

lemma exec_insts_append:
  "exec_insts ex cv (xs @ ys) c =
     (case exec_insts ex cv xs c of None \<Rightarrow> None | Some c' \<Rightarrow> exec_insts ex cv ys c')"
  by (induction xs arbitrary: c) (auto split: option.splits)

lemma exec_insts_orig:
  "list_all isOrig xs \<Longrightarrow>
   exec_insts ex cv xs c = Some (c\<lparr>ustate := userExec ex xs (ustate c)\<rparr>)"
proof (induction xs arbitrary: c)
  case Nil
  then show ?case by simp
next
  case (Cons i xs)
  then obtain n where i: "i = Orig n" by (cases i) auto
  from Cons show ?case by (simp add: i)
qed

text \<open>One round through the loop header.\<close>

lemma run_loop_header:
  assumes "getBB g L = Some (loopBB L cs)"
    and "map_of (mem cf) (InstV switchVar) = Some w"
  shows "run ex cv g (Suc m) L cf
           = run ex cv g m (switchDest L cs w) (cf\<lparr>regs := (load, w) # regs cf\<rparr>)"
  using assms by (simp add: load_def)

lemma run_rewritten:
  assumes g: "getBB g b = Some (blk\<lparr>bb_insts := bb_insts blk @ newInsts v lb lt lf, bb_term := Br L\<rparr>)"
    and o: "list_all isOrig (bb_insts blk)"
    and l: "map_of (regs cf) load = Some lb"
  shows "\<exists>cf'. run ex cv g (Suc m) b cf = run ex cv g m L cf'
           \<and> ustate cf' = userExec ex (bb_insts blk) (ustate cf)
           \<and> map_of (mem cf') (InstV switchVar)
               = Some (if eval1 cv (userExec ex (bb_insts blk) (ustate cf)) v then lt else lf)"
proof -
  let ?c1 = "cf\<lparr>ustate := userExec ex (bb_insts blk) (ustate cf)\<rparr>"
  have l1: "map_of (regs ?c1) load = Some lb" using l by simp
  from exec_newInsts [OF l1, of ex cv v lt lf] obtain cf' where
    e: "exec_insts ex cv (newInsts v lb lt lf) ?c1 = Some cf'"
    and u: "ustate cf' = ustate ?c1"
    and m: "map_of (mem cf') (InstV switchVar) = Some (if eval1 cv (ustate ?c1) v then lt else lf)"
    by blast
  have "exec_insts ex cv (bb_insts blk @ newInsts v lb lt lf) cf = Some cf'"
    by (simp add: exec_insts_append exec_insts_orig [OF o] e)
  then have "run ex cv g (Suc m) b cf = run ex cv g m L cf'"
    using g by simp
  then show ?thesis using u m by auto
qed

text \<open>
  One step of the original from a dispatched block, and the two steps of the flattened
  function (loop header, then the rewritten block) that answer it.
\<close>

lemma run_orig_step:
  assumes "getBB f b = Some blk" "list_all isOrig (bb_insts blk)"
  shows "run ex cv f (Suc n) b c =
     (case bb_term blk of
        Ret \<Rightarrow> Some (Returned (userExec ex (bb_insts blk) (ustate c)))
      | Br t \<Rightarrow> run ex cv f n t (c\<lparr>ustate := userExec ex (bb_insts blk) (ustate c)\<rparr>)
      | CondBr v t e \<Rightarrow>
          run ex cv f n (if eval1 cv (userExec ex (bb_insts blk) (ustate c)) v then t else e)
            (c\<lparr>ustate := userExec ex (bb_insts blk) (ustate c)\<rparr>)
      | Switch v d cs \<Rightarrow>
          (case eval32 (regs c) v of
             None \<Rightarrow> Some Stuck
           | Some w \<Rightarrow> run ex cv f n (switchDest d cs w)
               (c\<lparr>ustate := userExec ex (bb_insts blk) (ustate c)\<rparr>))
      | _ \<Rightarrow> Some Stuck)"
  using assms by (simp add: exec_insts_orig split: terminator.splits)

lemma run_flat_step:
  assumes loop: "getBB g L = Some (loopBB L cs)"
    and cs: "map_of cs (lab b) = Some b"
    and idb: "bb_id blk = b"
    and rw: "rewrittenIn g lab L D blk"
    and m: "map_of (mem cf) (InstV switchVar) = Some (lab b)"
  shows "case bb_term blk of
           Ret \<Rightarrow> run ex cv g (Suc (Suc m)) L cf
                    = Some (Returned (userExec ex (bb_insts blk) (ustate cf)))
         | Br t \<Rightarrow> t \<in> D \<and> (\<exists>cf'. run ex cv g (Suc (Suc m)) L cf = run ex cv g m L cf'
                     \<and> ustate cf' = userExec ex (bb_insts blk) (ustate cf)
                     \<and> map_of (mem cf') (InstV switchVar) = Some (lab t))
         | CondBr v t e \<Rightarrow> t \<in> D \<and> e \<in> D
               \<and> (\<exists>cf'. run ex cv g (Suc (Suc m)) L cf = run ex cv g m L cf'
                     \<and> ustate cf' = userExec ex (bb_insts blk) (ustate cf)
                     \<and> map_of (mem cf') (InstV switchVar)
                          = Some (lab (if eval1 cv (userExec ex (bb_insts blk) (ustate cf)) v
                                       then t else e)))
         | _ \<Rightarrow> False"
proof -
  let ?cf1 = "cf\<lparr>regs := (load, lab b) # regs cf\<rparr>"
  have h: "run ex cv g (Suc (Suc m)) L cf = run ex cv g (Suc m) b ?cf1"
    using run_loop_header [OF loop m, of ex cv "Suc m"] cs by (simp add: switchDest_def)
  have l1: "map_of (regs ?cf1) load = Some (lab b)" by simp
  have o: "list_all isOrig (bb_insts blk)" using rw by (simp add: rewrittenIn_def)
  show ?thesis
  proof (cases "bb_term blk")
    case Ret
    then have "getBB g b = Some blk" using rw idb by (simp add: rewrittenIn_def)
    then have "run ex cv g (Suc m) b ?cf1 = Some (Returned (userExec ex (bb_insts blk) (ustate cf)))"
      using Ret by (simp add: exec_insts_orig [OF o])
    then show ?thesis using Ret h by simp
  next
    case (Br t)
    then obtain lt where tD: "t \<in> D" and
      g: "getBB g b = Some (blk\<lparr>bb_insts := bb_insts blk
               @ newInsts (ConstantInt1 False) (lab b) lt (lab t), bb_term := Br L\<rparr>)"
      using rw idb by (auto simp: rewrittenIn_def)
    from run_rewritten [OF g o l1, of ex cv m] obtain cf' where
      "run ex cv g (Suc m) b ?cf1 = run ex cv g m L cf'"
      "ustate cf' = userExec ex (bb_insts blk) (ustate cf)"
      "map_of (mem cf') (InstV switchVar) = Some (lab t)"
      by auto
    then show ?thesis using Br h tD by auto
  next
    case (CondBr v t e)
    then have tD: "t \<in> D" "e \<in> D" and
      g: "getBB g b = Some (blk\<lparr>bb_insts := bb_insts blk
               @ newInsts v (lab b) (lab t) (lab e), bb_term := Br L\<rparr>)"
      using rw idb by (auto simp: rewrittenIn_def)
    from run_rewritten [OF g o l1, of ex cv m] obtain cf' where
      "run ex cv g (Suc m) b ?cf1 = run ex cv g m L cf'"
      "ustate cf' = userExec ex (bb_insts blk) (ustate cf)"
      "map_of (mem cf') (InstV switchVar)
          = Some (if eval1 cv (userExec ex (bb_insts blk) (ustate cf)) v then lab t else lab e)"
      by auto
    then show ?thesis using CondBr h tD by auto
  qed (use rw in \<open>auto simp: rewrittenIn_def\<close>)
qed

lemma dispatch_simulation:
  assumes loop: "getBB g L = Some (loopBB L cs)"
    and cases: "\<forall>b\<in>D. map_of cs (lab b) = Some b"
    and blocks: "\<forall>b\<in>D. \<exists>blk. getBB f b = Some blk \<and> rewrittenIn g lab L D blk"
  shows "b \<in> D \<Longrightarrow> ustate cf = ustate c \<Longrightarrow> map_of (mem cf) (InstV switchVar) = Some (lab b)
         \<Longrightarrow> run ex cv g (2 * n) L cf = run ex cv f n b c
             \<and> run ex cv g (Suc (2 * n)) L cf = run ex cv f n b c"
proof (induction n arbitrary: b c cf)
  case 0
  have "run ex cv g (Suc 0) L cf = None"
    using run_loop_header [OF loop "0.prems"(3), of ex cv 0] by simp
  then show ?case by simp
next
  case (Suc n)
  from blocks Suc.prems(1) obtain blk where
    f: "getBB f b = Some blk" and rw: "rewrittenIn g lab L D blk" by blast
  have o: "list_all isOrig (bb_insts blk)" using rw by (simp add: rewrittenIn_def)
  have cs: "map_of cs (lab b) = Some b" using cases Suc.prems(1) by blast
  note so = run_orig_step [OF f o, of ex cv n c]
  have idb: "bb_id blk = b" using f getBB_SomeD by blast
  note sf = run_flat_step [OF loop cs idb rw Suc.prems(3), of ex cv]
  let ?u = "userExec ex (bb_insts blk) (ustate c)"
  have uu: "userExec ex (bb_insts blk) (ustate cf) = ?u" using Suc.prems(2) by simp
  show ?case
  proof (cases "bb_term blk")
    case Ret
    then show ?thesis using so sf [of "2 * n"] sf [of "Suc (2 * n)"] uu by simp
  next
    case (Br t)
    from sf [of "2 * n"] Br obtain cf1 where tD: "t \<in> D"
      and a1: "run ex cv g (Suc (Suc (2 * n))) L cf = run ex cv g (2 * n) L cf1"
      and a2: "ustate cf1 = ?u" and a3: "map_of (mem cf1) (InstV switchVar) = Some (lab t)"
      using uu by auto
    from sf [of "Suc (2 * n)"] Br obtain cf2 where
      b1: "run ex cv g (Suc (Suc (Suc (2 * n)))) L cf = run ex cv g (Suc (2 * n)) L cf2"
      and b2: "ustate cf2 = ?u" and b3: "map_of (mem cf2) (InstV switchVar) = Some (lab t)"
      using uu by auto
    let ?c1 = "c\<lparr>ustate := ?u\<rparr>"
    have i1: "run ex cv g (2 * n) L cf1 = run ex cv f n t ?c1"
      using Suc.IH [OF tD _ a3, of ?c1] a2 by simp
    have i2: "run ex cv g (Suc (2 * n)) L cf2 = run ex cv f n t ?c1"
      using Suc.IH [OF tD _ b3, of ?c1] b2 by simp
    show ?thesis using so Br a1 b1 i1 i2 by simp
  next
    case (CondBr v t e)
    let ?s = "if eval1 cv ?u v then t else e"
    from sf [of "2 * n"] CondBr obtain cf1 where tD: "t \<in> D" "e \<in> D"
      and a1: "run ex cv g (Suc (Suc (2 * n))) L cf = run ex cv g (2 * n) L cf1"
      and a2: "ustate cf1 = ?u" and a3: "map_of (mem cf1) (InstV switchVar) = Some (lab ?s)"
      using uu by auto
    from sf [of "Suc (2 * n)"] CondBr obtain cf2 where
      b1: "run ex cv g (Suc (Suc (Suc (2 * n)))) L cf = run ex cv g (Suc (2 * n)) L cf2"
      and b2: "ustate cf2 = ?u" and b3: "map_of (mem cf2) (InstV switchVar) = Some (lab ?s)"
      using uu by auto
    have sD: "?s \<in> D" using tD by simp
    let ?c1 = "c\<lparr>ustate := ?u\<rparr>"
    have i1: "run ex cv g (2 * n) L cf1 = run ex cv f n ?s ?c1"
      using Suc.IH [OF sD _ a3, of ?c1] a2 by simp
    have i2: "run ex cv g (Suc (2 * n)) L cf2 = run ex cv f n ?s ?c1"
      using Suc.IH [OF sD _ b3, of ?c1] b2 by simp
    show ?thesis using so CondBr a1 b1 i1 i2 by simp
  qed (use rw in \<open>auto simp: rewrittenIn_def\<close>)
qed

lemma userExec_append: "userExec ex (xs @ ys) s = userExec ex ys (userExec ex xs s)"
  by (induction ex xs s rule: userExec.induct) auto

lemma index_of_nth: "distinct xs \<Longrightarrow> k < length xs \<Longrightarrow> index_of xs (xs ! k) = k"
proof (induction xs arbitrary: k)
  case Nil then show ?case by simp
next
  case (Cons x xs)
  then show ?case by (cases k) auto
qed

lemma cases_map_of:
  assumes "set bbSeq = {0..<n}" "distinct bbSeq" "distinct bbIndex" "length bbIndex = n" "k < n"
  shows "map_of (map (\<lambda>b. (bbIndex ! b, origBB ! b)) bbSeq) (bbIndex ! k) = Some (origBB ! k)"
proof -
  let ?cs = "map (\<lambda>b. (bbIndex ! b, origBB ! b)) bbSeq"
  have i: "inj_on ((!) bbIndex) (set bbSeq)"
    using assms by (auto simp: inj_on_def nth_eq_iff_index_eq)
  have m: "map fst ?cs = map ((!) bbIndex) bbSeq" by (simp add: comp_def)
  have "distinct (map ((!) bbIndex) bbSeq)" using assms(2) i by (simp add: distinct_map)
  then have "distinct (map fst ?cs)" unfolding m .
  moreover have "(bbIndex ! k, origBB ! k) \<in> set ?cs" using assms(1,5) by auto
  ultimately show ?thesis by simp
qed

text \<open>The blocks after the entry block are, in the flattened function, in rewritten form.\<close>

lemma rewriteBB_rewrittenIn:
  assumes rw: "rewriteBB origBB bbIndex bbSeq L k blk = Inr blk'"
    and g: "getBB g (bb_id blk) = Some blk'"
    and simple: "simpleTerm (bb_term blk)" and orig: "list_all isOrig (bb_insts blk)"
    and sub: "set (successors (bb_term blk)) \<subseteq> D"
    and labk: "lab (bb_id blk) = bbIndex ! k"
    and lab: "\<forall>t. lab t = bbIndex ! index_of origBB t"
  shows "rewrittenIn g lab L D blk"
proof (cases "bb_term blk")
  case Ret
  then show ?thesis using rewriteBB_InrD [OF rw] g orig by (simp add: rewrittenIn_def)
next
  case (Br t)
  then have "succIndex origBB bbSeq k (bb_term blk)
      = Inr (ConstantInt1 False, index_of bbSeq k, index_of origBB t)"
    by (simp add: succIndex_def getNumSuccessors_def getSuccessor_def)
  then have "blk' = blk\<lparr>bb_insts := bb_insts blk
        @ newInsts (ConstantInt1 False) (bbIndex ! k) (bbIndex ! index_of bbSeq k)
            (bbIndex ! index_of origBB t), bb_term := Br L\<rparr>"
    using rewriteBB_InrD [OF rw] Br by auto
  then show ?thesis using Br g orig sub labk lab by (auto simp: rewrittenIn_def)
next
  case (CondBr v t e)
  then have "succIndex origBB bbSeq k (bb_term blk)
      = Inr (v, index_of origBB t, index_of origBB e)"
    by (simp add: succIndex_def getNumSuccessors_def getSuccessor_def)
  then have "blk' = blk\<lparr>bb_insts := bb_insts blk
        @ newInsts v (bbIndex ! k) (bbIndex ! index_of origBB t)
            (bbIndex ! index_of origBB e), bb_term := Br L\<rparr>"
    using rewriteBB_InrD [OF rw] CondBr by auto
  then show ?thesis using CondBr g orig sub labk lab by (auto simp: rewrittenIn_def)
qed (use simple in auto)

lemma fuel_equiv:
  fixes F G :: "nat \<Rightarrow> 'a option"
  assumes "F 0 = None" and "\<forall>m<d. G m = None"
    and "\<forall>n. G (d + 2 * n) = F (Suc n) \<and> G (Suc (d + 2 * n)) = F (Suc n)"
  shows "(\<exists>n. F n = Some out) \<longleftrightarrow> (\<exists>m. G m = Some out)"
proof
  assume "\<exists>n. F n = Some out"
  then obtain n where n: "F n = Some out" by blast
  then obtain n' where "n = Suc n'" using assms(1) by (cases n) auto
  then have "G (d + 2 * n') = Some out" using n assms(3) by simp
  then show "\<exists>m. G m = Some out" by blast
next
  assume "\<exists>m. G m = Some out"
  then obtain m where m: "G m = Some out" by blast
  then have "\<not> m < d" using assms(2) by auto
  then obtain j where j: "m = d + j" by (metis le_Suc_ex not_le_imp_less)
  show "\<exists>n. F n = Some out"
  proof (cases "even j")
    case True
    then obtain n' where "j = 2 * n'" by (auto elim: evenE)
    then have "F (Suc n') = Some out" using m j assms(3) by simp
    then show ?thesis by blast
  next
    case False
    then obtain n' where "j = Suc (2 * n')" by (auto elim: oddE)
    then have "F (Suc n') = Some out" using m j assms(3) by simp
    then show ?thesis by blast
  qed
qed

lemma run_prologue:
  assumes "getBB g b = Some (prologueBB e l0 L)" and "list_all isOrig (bb_insts e)"
  shows "run ex cv g (Suc m) b \<lparr>ustate = s, regs = [], mem = []\<rparr>
           = run ex cv g m L
               \<lparr>ustate = userExec ex (bb_insts e) s, regs = [], mem = [(InstV switchVar, l0)]\<rparr>"
  using assms
  by (simp add: exec_insts_append exec_insts_orig switchVar_def)

lemma simpleTerm_succ:
  "simpleTerm t \<Longrightarrow> getNumSuccessors t \<le> 2 \<and> (getNumSuccessors t = 2 \<longrightarrow> isConditional t)
     \<and> \<not> isa_InvokeInst t"
  by (cases t) (auto simp: getNumSuccessors_def)

lemma flattenCore_total:
  fixes rnd :: "nat \<Rightarrow> u32"
  assumes d: "distinct (map bb_id f)" and perm: "\<forall>xs. mset (shuffle xs) = mset xs"
    and ok: "\<not> (\<exists>blk\<in>set f. isa_InvokeInst (bb_term blk))" "length f > 1"
    and con: "\<forall>blk\<in>set f. getNumSuccessors (bb_term blk) \<le> 2
              \<and> (getNumSuccessors (bb_term blk) = 2 \<longrightarrow> isConditional (bb_term blk))
              \<and> set (successors (bb_term blk)) \<subseteq> bb_id ` set (tl f)"
  shows "\<exists>st. flattenCore rnd shuffle f = Inr (Some st)"
proof -
  have fne: "f \<noteq> []" using ok(2) by auto
  from flattenCore_char [OF d perm ok, of rnd] obtain e1 ds where
    sp: "splitEntry f (map bb_id (tl f)) = (e1 # ds, map bb_id ds)"
    and shape: "if getNumSuccessors (bb_term (hd f)) > 1
               then e1 = (hd f)\<lparr>bb_insts := butlast (bb_insts (hd f)), bb_term := Br (newBB f)\<rparr>
                    \<and> ds = firstBB (hd f) (newBB f) # tl f
               else e1 = hd f \<and> ds = tl f"
    by blast
  have dd: "dispatched f = ds" by (simp add: dispatched_def sp)
  have tlsub: "set (tl f) \<subseteq> set ds" using shape by (auto split: if_splits)
  have terms: "\<forall>blk\<in>set ds. \<exists>blk0\<in>set f. bb_term blk = bb_term blk0"
    using dispatched_terms [OF shape fne] by blast
  have sub: "\<forall>blk\<in>set (dispatched f). set (successors (bb_term blk)) \<subseteq> bb_id ` set (dispatched f)"
    unfolding dd
  proof
    fix blk assume "blk \<in> set ds"
    with terms obtain blk0 where "blk0 \<in> set f" "bb_term blk = bb_term blk0" by blast
    with con have "set (successors (bb_term blk)) \<subseteq> bb_id ` set (tl f)" by simp
    then show "set (successors (bb_term blk)) \<subseteq> bb_id ` set ds" using tlsub by blast
  qed
  have noerr: "flattenCore rnd shuffle f \<noteq> Inl err" for err
  proof
    assume "flattenCore rnd shuffle f = Inl err"
    from flattenCore_no_error [OF d perm ok sub this] obtain blk where
      "blk \<in> set ds"
      "getNumSuccessors (bb_term blk) > 2
         \<or> (getNumSuccessors (bb_term blk) = 2 \<and> \<not> isConditional (bb_term blk))"
      unfolding dd by blast
    with terms con show False by (metis not_less)
  qed
  then show ?thesis
    using flattenCore_None_iff [of rnd shuffle f] ok
    by (cases "flattenCore rnd shuffle f") (auto simp: not_le)
qed

lemma flattened_equiv:
  fixes rnd :: "nat \<Rightarrow> u32"
  assumes st: "flattenCore rnd shuffle f = Inr (Some st)"
    and d: "distinct (map bb_id f)" and perm: "\<forall>xs. mset (shuffle xs) = mset xs"
    and wf: "\<forall>blk\<in>set f. simpleTerm (bb_term blk) \<and> list_all isOrig (bb_insts blk)
               \<and> set (successors (bb_term blk)) \<subseteq> bb_id ` set (tl f)"
    and entry: "getNumSuccessors (bb_term (hd f)) > 1 \<or> bb_term (hd f) = Br (bb_id (hd (tl f)))"
    and labels: "distinct (fl_bbIndex st)"
  shows "(\<exists>n. call ex cv f n s = Some out) \<longleftrightarrow> (\<exists>m. call ex cv (fl_func st) m s = Some out)"
proof -
  from flattenCore_SomeD [OF st d perm] obtain e1 ds r' where
    ide: "bb_id e1 = bb_id (hd f)" and d1: "distinct (map bb_id (e1 # ds))" and ne: "ds \<noteq> []"
    and shape: "if getNumSuccessors (bb_term (hd f)) > 1
               then e1 = (hd f)\<lparr>bb_insts := butlast (bb_insts (hd f)), bb_term := Br (newBB f)\<rparr>
                    \<and> ds = firstBB (hd f) (newBB f) # tl f
               else e1 = hd f \<and> ds = tl f"
    and ob: "fl_origBB st = map bb_id ds" and bi: "fl_bbIndex st = map rnd [0..<length ds]"
    and bs: "fl_bbSeq st = shuffle [0..<length ds]"
    and L: "fl_loopEntry st = newBB (e1 # ds)"
    and dg: "distinct (map bb_id (fl_func st))"
    and hdg: "fl_func st = prologueBB e1 (rnd 0) (newBB (e1 # ds)) # r'"
    and gL: "getBB (fl_func st) (newBB (e1 # ds))
              = Some (loopBB (newBB (e1 # ds))
                  (map (\<lambda>b. (map rnd [0..<length ds] ! b, map bb_id ds ! b)) (shuffle [0..<length ds])))"
    and rw: "\<forall>k<length ds. \<exists>blk'. rewriteBB (map bb_id ds) (map rnd [0..<length ds])
                       (shuffle [0..<length ds]) (newBB (e1 # ds)) k (ds ! k) = Inr blk'
                 \<and> getBB (fl_func st) (map bb_id ds ! k) = Some blk'"
    by blast
  define g where "g = fl_func st"
  define origBB where "origBB = map bb_id ds"
  define bbIndex where "bbIndex = map rnd [0..<length ds]"
  define bbSeq where "bbSeq = shuffle [0..<length ds]"
  define Lh where "Lh = newBB (e1 # ds)"
  define cs where "cs = map (\<lambda>b. (bbIndex ! b, origBB ! b)) bbSeq"
  define lab where "lab = (\<lambda>t. bbIndex ! index_of origBB t)"
  define D where "D = bb_id ` set (tl f)"
  have "length f > 1"
    using st by (auto simp: flattenCore_def saveOrigBB_eq split: if_splits)
  then obtain e r where f: "f = e # r" by (cases f) auto
  have dob: "distinct origBB" using d1 by (simp add: origBB_def)
  have lenI: "length bbIndex = length ds" by (simp add: bbIndex_def)
  have lenO: "length origBB = length ds" by (simp add: origBB_def)
  have dI: "distinct bbIndex" using labels by (simp add: bi bbIndex_def)
  have p: "set bbSeq = {0..<length ds}" "distinct bbSeq"
    using perm_upt [of "shuffle [0..<length ds]" "length ds"] perm by (simp_all add: bbSeq_def)
  have loop: "getBB g Lh = Some (loopBB Lh cs)"
    using gL by (simp add: g_def Lh_def cs_def bbIndex_def origBB_def bbSeq_def)
  have labk: "lab (origBB ! k) = bbIndex ! k" if "k < length ds" for k
    using that dob lenO by (simp add: lab_def index_of_nth)
  have csk: "map_of cs (lab (origBB ! k)) = Some (origBB ! k)" if "k < length ds" for k
    unfolding labk [OF that] cs_def
    by (rule cases_map_of [OF p dI lenI that])
  have tlsub: "set (tl f) \<subseteq> set ds" using shape by (auto split: if_splits)
  have Dk: "\<exists>k<length ds. ds ! k = blk" if "blk \<in> set (tl f)" for blk
    using that tlsub by (metis in_set_conv_nth subsetD)
  have cases: "\<forall>b\<in>D. map_of cs (lab b) = Some b"
  proof
    fix b assume "b \<in> D"
    then obtain blk where "blk \<in> set (tl f)" "b = bb_id blk" by (auto simp: D_def)
    with Dk obtain k where "k < length ds" "ds ! k = blk" by blast
    then have "origBB ! k = b" using \<open>b = bb_id blk\<close> by (simp add: origBB_def)
    with csk [OF \<open>k < length ds\<close>] show "map_of cs (lab b) = Some b" by simp
  qed
  have rwI: "rewrittenIn g lab Lh D (ds ! k)" if k: "k < length ds" for k
  proof -
    from rw k obtain blk' where
      r: "rewriteBB origBB bbIndex bbSeq Lh k (ds ! k) = Inr blk'"
      and gk: "getBB g (bb_id (ds ! k)) = Some blk'"
      by (auto simp: origBB_def bbIndex_def bbSeq_def Lh_def g_def)
    have "\<exists>blk0\<in>set f. bb_term (ds ! k) = bb_term blk0 \<and> 
             (list_all isOrig (bb_insts blk0) \<longrightarrow> list_all isOrig (bb_insts (ds ! k)))"
    proof (cases "ds ! k \<in> set (tl f)")
      case True
      then have "ds ! k \<in> set f" using f by auto
      then show ?thesis by blast
    next
      case False
      then have "ds ! k = firstBB (hd f) (newBB f)"
        using shape k by (auto split: if_splits simp: nth_Cons')
      moreover have "list_all isOrig (bb_insts (hd f)) \<longrightarrow> list_all isOrig (bb_insts (firstBB (hd f) (newBB f)))"
        by (auto simp: firstBB_def list_all_iff)
      ultimately show ?thesis using f by (auto simp: firstBB_def)
    qed
    then obtain blk0 where "blk0 \<in> set f" "bb_term (ds ! k) = bb_term blk0"
      "list_all isOrig (bb_insts (ds ! k))" using wf by blast
    then have s: "simpleTerm (bb_term (ds ! k))" "list_all isOrig (bb_insts (ds ! k))"
      "set (successors (bb_term (ds ! k))) \<subseteq> D"
      using wf by (auto simp: D_def)
    have lk: "lab (bb_id (ds ! k)) = bbIndex ! k" using labk [OF k] k by (simp add: origBB_def)
    have l: "\<forall>t. lab t = bbIndex ! index_of origBB t" by (simp add: lab_def)
    show ?thesis by (rule rewriteBB_rewrittenIn [OF r gk s lk l])
  qed
  have blocks: "\<forall>b\<in>D. \<exists>blk. getBB f b = Some blk \<and> rewrittenIn g lab Lh D blk"
  proof
    fix b assume "b \<in> D"
    then obtain blk where blk: "blk \<in> set (tl f)" "b = bb_id blk" by (auto simp: D_def)
    with Dk obtain k where k: "k < length ds" "ds ! k = blk" by blast
    have "blk \<in> set f" using blk(1) f by auto
    then have "getBB f b = Some blk" using blk(2) by (simp add: getBB_Some_iff [OF d])
    then show "\<exists>blk. getBB f b = Some blk \<and> rewrittenIn g lab Lh D blk"
      using rwI [OF k(1)] k(2) by auto
  qed
  note sim = dispatch_simulation [OF loop cases blocks, of _ _ _ ex cv]
  have ge: "getBB f (bb_id e) = Some e" by (simp add: f getBB_def)
  have oe: "list_all isOrig (bb_insts e)" "simpleTerm (bb_term e)"
    "set (successors (bb_term e)) \<subseteq> D" using wf f by (auto simp: D_def)
  have gp: "getBB g (bb_id e) = Some (prologueBB e1 (rnd 0) Lh)"
    using hdg ide f by (simp add: g_def Lh_def getBB_def)
  have b0: "bbIndex ! 0 = rnd 0" using ne by (simp add: bbIndex_def)
  let ?init = "\<lparr>ustate = s, regs = [], mem = []\<rparr>"
  have F0: "call ex cv f 0 s = None" by (simp add: call_def)
  have G0: "call ex cv g 0 s = None" by (simp add: call_def)
  have hdg': "bb_id (hd g) = bb_id e" using hdg ide f by (simp add: g_def)
  show ?thesis
  proof (cases "getNumSuccessors (bb_term (hd f)) > 1")
    case False
    then have e1: "e1 = e" "ds = r" and te: "bb_term e = Br (bb_id (hd r))"
      using shape entry f by auto
    have rne: "r \<noteq> []" using ne e1 by simp
    let ?bz = "bb_id (hd r)"
    have b0D: "?bz \<in> D" using rne f by (simp add: D_def)
    have ob0: "origBB ! 0 = ?bz" using rne e1 by (simp add: origBB_def hd_conv_nth)
    have lab0: "lab ?bz = rnd 0" using labk [of 0] ne ob0 b0 by simp
    let ?u = "userExec ex (bb_insts e) s"
    have stepG: "call ex cv g (Suc m) s
        = run ex cv g m Lh \<lparr>ustate = ?u, regs = [], mem = [(InstV switchVar, rnd 0)]\<rparr>" for m
      unfolding call_def hdg' using run_prologue [OF gp, of ex cv m s] oe(1) e1 by simp
    have stepF: "call ex cv f (Suc n) s = run ex cv f n ?bz (?init\<lparr>ustate := ?u\<rparr>)" for n
      unfolding call_def using run_orig_step [OF ge oe(1), of ex cv n ?init] te f by simp
    have eq: "call ex cv g (1 + 2 * n) s = call ex cv f (Suc n) s
            \<and> call ex cv g (Suc (1 + 2 * n)) s = call ex cv f (Suc n) s" for n
      using sim [OF b0D, of "\<lparr>ustate = ?u, regs = [], mem = [(InstV switchVar, rnd 0)]\<rparr>"
                  "?init\<lparr>ustate := ?u\<rparr>" n] lab0
      by (simp add: stepG stepF)
    have "(\<exists>n. call ex cv f n s = Some out) \<longleftrightarrow> (\<exists>m. call ex cv g m s = Some out)"
      by (rule fuel_equiv [where d = 1]) (use F0 G0 eq in auto)
    then show ?thesis by (simp add: g_def)
  next
    case True
    then have e1: "e1 = e\<lparr>bb_insts := butlast (bb_insts e), bb_term := Br (newBB f)\<rparr>"
      and dsf: "ds = firstBB e (newBB f) # r"
      using shape f by auto
    from True oe(2) f obtain v t el where te: "bb_term e = CondBr v t el"
      by (cases "bb_term e") (auto simp: getNumSuccessors_def)
    have tD: "t \<in> D" "el \<in> D" using oe(3) te by auto
    let ?first = "firstBB e (newBB f)"
    have k0: "0 < length ds" using ne by simp
    have d0: "ds ! 0 = ?first" by (simp add: dsf)
    have o0: "origBB ! 0 = newBB f" by (simp add: origBB_def dsf firstBB_def)
    have rw0: "rewrittenIn g lab Lh D ?first" using rwI [OF k0] d0 by simp
    have idf: "bb_id ?first = origBB ! 0" by (simp add: o0 firstBB_def)
    have cs0: "map_of cs (lab (origBB ! 0)) = Some (origBB ! 0)" by (rule csk [OF k0])
    have lab0: "lab (origBB ! 0) = rnd 0" using labk [OF k0] b0 by simp
    let ?ub = "userExec ex (butlast (bb_insts e)) s"
    let ?u = "userExec ex (bb_insts e) s"
    have uu: "userExec ex (bb_insts ?first) ?ub = ?u"
    proof (cases "bb_insts e = []")
      case True then show ?thesis by (simp add: firstBB_def)
    next
      case False
      then have "bb_insts e = butlast (bb_insts e) @ [last (bb_insts e)]" by simp
      then have "?u = userExec ex [last (bb_insts e)] ?ub"
        by (metis userExec_append)
      then show ?thesis using False by (simp add: firstBB_def)
    qed
    have o1: "list_all isOrig (bb_insts e1)"
      using oe(1) by (auto simp: e1 list_all_iff dest: in_set_butlastD)
    let ?cfa = "\<lparr>ustate = ?ub, regs = [], mem = [(InstV switchVar, rnd 0)]\<rparr>"
    have stepG: "call ex cv g (Suc m) s = run ex cv g m Lh ?cfa" for m
      unfolding call_def hdg' using run_prologue [OF gp o1, of ex cv m s] by (simp add: e1)
    have m0: "map_of (mem ?cfa) (InstV switchVar) = Some (lab (origBB ! 0))" using lab0 by simp
    have fs: "\<exists>cf'. run ex cv g (Suc (Suc m)) Lh ?cfa = run ex cv g m Lh cf'
                     \<and> ustate cf' = ?u
                     \<and> map_of (mem cf') (InstV switchVar)
                          = Some (lab (if eval1 cv ?u v then t else el))" for m
      using run_flat_step [OF loop cs0 idf rw0 m0, of ex cv m] te uu
      by (simp add: firstBB_def)
    have stepF: "call ex cv f (Suc n) s
        = run ex cv f n (if eval1 cv ?u v then t else el) (?init\<lparr>ustate := ?u\<rparr>)" for n
      unfolding call_def using run_orig_step [OF ge oe(1), of ex cv n ?init] te f by simp
    have sD: "(if eval1 cv ?u v then t else el) \<in> D" using tD by simp
    have eq: "call ex cv g (3 + 2 * n) s = call ex cv f (Suc n) s
            \<and> call ex cv g (Suc (3 + 2 * n)) s = call ex cv f (Suc n) s" for n
    proof -
      from fs [of "2 * n"] obtain cf1 where
        a1: "run ex cv g (Suc (Suc (2 * n))) Lh ?cfa = run ex cv g (2 * n) Lh cf1"
        and a2: "ustate cf1 = ?u"
        and a3: "map_of (mem cf1) (InstV switchVar) = Some (lab (if eval1 cv ?u v then t else el))"
        by blast
      from fs [of "Suc (2 * n)"] obtain cf2 where
        b1: "run ex cv g (Suc (Suc (Suc (2 * n)))) Lh ?cfa = run ex cv g (Suc (2 * n)) Lh cf2"
        and b2: "ustate cf2 = ?u"
        and b3: "map_of (mem cf2) (InstV switchVar) = Some (lab (if eval1 cv ?u v then t else el))"
        by blast
      have i1: "run ex cv g (2 * n) Lh cf1
           = run ex cv f n (if eval1 cv ?u v then t else el) (?init\<lparr>ustate := ?u\<rparr>)"
        using sim [OF sD _ a3, of "?init\<lparr>ustate := ?u\<rparr>" n] a2 by simp
      have i2: "run ex cv g (Suc (2 * n)) Lh cf2
           = run ex cv f n (if eval1 cv ?u v then t else el) (?init\<lparr>ustate := ?u\<rparr>)"
        using sim [OF sD _ b3, of "?init\<lparr>ustate := ?u\<rparr>" n] b2 by simp
      let ?c1 = "?init\<lparr>ustate := ?u\<rparr>"
      have "call ex cv g (Suc (Suc (Suc (2 * n)))) s
              = run ex cv g (Suc (Suc (2 * n))) Lh ?cfa" by (rule stepG)
      also have "\<dots> = run ex cv g (2 * n) Lh cf1" by (rule a1)
      also have "\<dots> = run ex cv f n (if eval1 cv ?u v then t else el) ?c1" by (rule i1)
      also have "\<dots> = call ex cv f (Suc n) s" by (rule stepF [symmetric])
      finally have E1: "call ex cv g (Suc (Suc (Suc (2 * n)))) s = call ex cv f (Suc n) s" .
      have "call ex cv g (Suc (Suc (Suc (Suc (2 * n))))) s
              = run ex cv g (Suc (Suc (Suc (2 * n)))) Lh ?cfa" by (rule stepG)
      also have "\<dots> = run ex cv g (Suc (2 * n)) Lh cf2" by (rule b1)
      also have "\<dots> = run ex cv f n (if eval1 cv ?u v then t else el) ?c1" by (rule i2)
      also have "\<dots> = call ex cv f (Suc n) s" by (rule stepF [symmetric])
      finally have E2: "call ex cv g (Suc (Suc (Suc (Suc (2 * n))))) s = call ex cv f (Suc n) s" .
      have n3: "3 + 2 * n = Suc (Suc (Suc (2 * n)))" by simp
      show ?thesis unfolding n3 using E1 E2 by (rule conjI)
    qed
    have G1: "call ex cv g (Suc 0) s = None"
      by (simp only: stepG run.simps(1))
    have G2: "call ex cv g (Suc (Suc 0)) s = None"
      by (simp only: stepG run_loop_header [OF loop m0] run.simps(1))
    have low: "\<forall>m<3. call ex cv g m s = None"
    proof (intro allI impI)
      fix m :: nat assume "m < 3"
      then consider "m = 0" | "m = Suc 0" | "m = Suc (Suc 0)" by linarith
      then show "call ex cv g m s = None" using G0 G1 G2 by cases simp_all
    qed
    have "(\<exists>n. call ex cv f n s = Some out) \<longleftrightarrow> (\<exists>m. call ex cv g m s = Some out)"
      by (rule fuel_equiv [where d = 3]) (use F0 low eq in auto)
    then show ?thesis by (simp add: g_def)
  qed
qed

lemma run_default_loop:
  assumes "getBB g L = Some (loopBB L cs)" and "map_of cs w = None"
  shows "map_of (mem cf) (InstV switchVar) = Some w \<Longrightarrow> run ex cv g n L cf = None"
proof (induction n arbitrary: cf)
  case 0
  then show ?case by simp
next
  case (Suc n)
  have "run ex cv g (Suc n) L cf = run ex cv g n L (cf\<lparr>regs := (load, w) # regs cf\<rparr>)"
    using run_loop_header [OF assms(1) Suc.prems, of ex cv n] assms(2)
    by (simp add: switchDest_def)
  also have "\<dots> = None" using Suc.prems by (intro Suc.IH) simp
  finally show ?case .
qed

lemma exProc_call: "call logInst noCond exProc 4 [] = Some (Returned [0, 1, 3, 4])"
  by code_simp

lemma splitProc_call: "call logInst noCond splitProc 2 [] = Some (Returned [0, 1, 3])"
  by code_simp

section \<open>The claims\<close>

text \<open>
  C1.  Conditional-branch arithmetic: in a block entered through the dispatch, the register
  of the load holds the label of the current block.  Running the instructions the pass puts
  in front of the terminator then computes, and stores into the state variable, the label
  of the true successor when the condition is true and the label of the false successor
  when it is false, whatever the three labels are.
\<close>

theorem cond_branch_next_state:
  assumes "map_of (regs c) load = Some currLabel"
  shows "\<exists>c'. exec_insts ex cv (newInsts cnd currLabel trueLabel falseLabel) c = Some c'
           \<and> eval32 (regs c') (InstV (finalVal cnd currLabel trueLabel falseLabel))
               = Some (if eval1 cv (ustate c) cnd then trueLabel else falseLabel)
           \<and> map_of (mem c') (InstV switchVar)
               = Some (if eval1 cv (ustate c) cnd then trueLabel else falseLabel)"
  using exec_newInsts [OF assms, of ex cv cnd trueLabel falseLabel] by blast

theorem cond_branch_next_state_witness:
  "map_of (regs \<lparr>ustate = (), regs = [(load, 5)], mem = []\<rparr>) load = Some 5
   \<and> (\<exists>c'. exec_insts noEffect allTrue (newInsts (InstV (Orig 0)) 5 7 9)
              \<lparr>ustate = (), regs = [(load, 5)], mem = []\<rparr> = Some c'
           \<and> eval32 (regs c') (InstV (finalVal (InstV (Orig 0)) 5 7 9)) = Some 7
           \<and> map_of (mem c') (InstV switchVar) = Some 7)"
proof -
  have h: "map_of (regs \<lparr>ustate = (), regs = [(load, 5)], mem = []\<rparr>) load = Some (5::u32)"
    by simp
  show ?thesis
    using h cond_branch_next_state [OF h, of noEffect allTrue "InstV (Orig 0)" 7 9]
    by (simp add: allTrue_def)
qed

text \<open>
  C2, as amended.  Take a function with distinct blocks, at least two of them, whose
  terminators are returns, branches and conditional branches to non-entry blocks of the
  function, and whose instructions are opaque to the pass; let its entry block either be
  split (more than one successor) or end in a branch to the block placed right after it;
  let the labels drawn be pairwise distinct, and let \<open>fixStack\<close> preserve what a call does.
  Then \<open>flatten\<close> returns true, and for every initial state the function it returns
  comes to an outcome (a return with a final program state) exactly when the original
  does, and it is the same outcome.
\<close>

theorem flatten_preserves_behaviour:
  fixes rnd :: "nat \<Rightarrow> u32"
  assumes "distinct (map bb_id f)" and "\<forall>xs. mset (shuffle xs) = mset xs" and "length f > 1"
    and "\<forall>blk\<in>set f. simpleTerm (bb_term blk) \<and> list_all isOrig (bb_insts blk)
               \<and> set (successors (bb_term blk)) \<subseteq> bb_id ` set (tl f)"
    and "getNumSuccessors (bb_term (hd f)) > 1 \<or> bb_term (hd f) = Br (bb_id (hd (tl f)))"
    and "distinct (map rnd [0..<length (dispatched f)])"
    and "\<forall>g n s. call ex cv (fixStack g) n s = call ex cv g n s"
  shows "\<exists>g. flatten fixStack rnd shuffle f = Inr (True, g)
           \<and> (\<forall>s out. (\<exists>n. call ex cv f n s = Some out) \<longleftrightarrow> (\<exists>m. call ex cv g m s = Some out))"
proof -
  have ok: "\<not> (\<exists>blk\<in>set f. isa_InvokeInst (bb_term blk))"
    using assms(4) simpleTerm_succ by blast
  have con: "\<forall>blk\<in>set f. getNumSuccessors (bb_term blk) \<le> 2
              \<and> (getNumSuccessors (bb_term blk) = 2 \<longrightarrow> isConditional (bb_term blk))
              \<and> set (successors (bb_term blk)) \<subseteq> bb_id ` set (tl f)"
    using assms(4) simpleTerm_succ by blast
  from flattenCore_total [OF assms(1,2) ok assms(3) con, of rnd]
  obtain st where st: "flattenCore rnd shuffle f = Inr (Some st)" by blast
  from flattenCore_SomeD [OF st assms(1,2)] obtain e1 ds where
    "splitEntry f (map bb_id (tl f)) = (e1 # ds, map bb_id ds)"
    "fl_bbIndex st = map rnd [0..<length ds]"
    by blast
  then have lab: "distinct (fl_bbIndex st)" using assms(6) by (simp add: dispatched_def)
  have fl: "flatten fixStack rnd shuffle f = Inr (True, fixStack (fl_func st))"
    using st by (simp add: flatten_def)
  have "(\<exists>n. call ex cv f n s = Some out)
          \<longleftrightarrow> (\<exists>m. call ex cv (fixStack (fl_func st)) m s = Some out)" for s out
    using flattened_equiv [OF st assms(1,2,4,5) lab, of ex cv s out] assms(7) by simp
  then show ?thesis using fl by blast
qed

theorem flatten_preserves_behaviour_witness:
  "map_sum id fst (flatten id exLabel rev exProc) = Inr True
   \<and> call logInst noCond exProc 4 [] = Some (Returned [0, 1, 3, 4])
   \<and> (\<exists>m. call logInst noCond (returnedFunc (flatten id exLabel rev exProc)) m []
          = Some (Returned [0, 1, 3, 4]))
   \<and> map_sum id fst (flatten id exLabel rev splitProc) = Inr True
   \<and> call logInst noCond splitProc 2 [] = Some (Returned [0, 1, 3])
   \<and> (\<exists>m. call logInst noCond (returnedFunc (flatten id exLabel rev splitProc)) m []
          = Some (Returned [0, 1, 3]))"
proof -
  have h7: "\<forall>g n s. call logInst noCond (id g) n s = call logInst noCond g n s"
    by simp
  have a3: "length exProc > 1" by (simp add: exProc_def)
  have a4: "\<forall>blk\<in>set exProc. simpleTerm (bb_term blk) \<and> list_all isOrig (bb_insts blk)
               \<and> set (successors (bb_term blk)) \<subseteq> bb_id ` set (tl exProc)"
    by (simp add: exProc_def)
  have a5: "getNumSuccessors (bb_term (hd exProc)) > 1
              \<or> bb_term (hd exProc) = Br (bb_id (hd (tl exProc)))"
    by (simp add: exProc_def)
  have a6: "distinct (map exLabel [0..<length (dispatched exProc)])"
    by code_simp
  from flatten_preserves_behaviour [OF exProc_distinct mset_rev_all a3 a4 a5 a6 h7]
  obtain g where g: "flatten id exLabel rev exProc = Inr (True, g)"
    and eq: "\<forall>s out. (\<exists>n. call logInst noCond exProc n s = Some out)
                  \<longleftrightarrow> (\<exists>m. call logInst noCond g m s = Some out)"
    by blast
  from eq exProc_call
  have A: "\<exists>m. call logInst noCond g m [] = Some (Returned [0, 1, 3, 4])" by blast
  have b1: "distinct (map bb_id splitProc)" by (simp add: splitProc_def)
  have b3: "length splitProc > 1" by (simp add: splitProc_def)
  have b4: "\<forall>blk\<in>set splitProc. simpleTerm (bb_term blk) \<and> list_all isOrig (bb_insts blk)
               \<and> set (successors (bb_term blk)) \<subseteq> bb_id ` set (tl splitProc)"
    by (simp add: splitProc_def)
  have b5: "getNumSuccessors (bb_term (hd splitProc)) > 1
              \<or> bb_term (hd splitProc) = Br (bb_id (hd (tl splitProc)))"
    by (simp add: splitProc_def getNumSuccessors_def)
  have b6: "distinct (map exLabel [0..<length (dispatched splitProc)])"
    by code_simp
  from flatten_preserves_behaviour [OF b1 mset_rev_all b3 b4 b5 b6 h7]
  obtain g' where g': "flatten id exLabel rev splitProc = Inr (True, g')"
    and eq': "\<forall>s out. (\<exists>n. call logInst noCond splitProc n s = Some out)
                  \<longleftrightarrow> (\<exists>m. call logInst noCond g' m s = Some out)"
    by blast
  from eq' splitProc_call
  have B: "\<exists>m. call logInst noCond g' m [] = Some (Returned [0, 1, 3])" by blast
  show ?thesis
    using A B exProc_call splitProc_call by (simp add: g g' returnedFunc_def)
qed

text \<open>
  C2 as stated fails on two accepted functions, with the program state taken to be the list
  of the instructions run.  In the first the same label is drawn for both dispatched
  blocks: the original runs 0, 1, 2 and the flattened function 0, 2.  In the second the
  entry block branches to the third block, not to the block placed after it: the original
  runs 0, 2, 1, the flattened function 0, 1, since the state variable starts at the label
  of \<open>origBB[0]\<close> whatever the entry block's successor is.
\<close>

theorem flatten_preserves_behaviour_counterexample:
  "map_sum id fst (flatten id sameLabel rev c2Proc) = Inr True
   \<and> call logInst noCond c2Proc 5 [] = Some (Returned [0, 1, 2])
   \<and> call logInst noCond (returnedFunc (flatten id sameLabel rev c2Proc)) 5 []
        = Some (Returned [0, 2])
   \<and> map_sum id fst (flatten id exLabel rev c2Slip) = Inr True
   \<and> call logInst noCond c2Slip 5 [] = Some (Returned [0, 2, 1])
   \<and> call logInst noCond (returnedFunc (flatten id exLabel rev c2Slip)) 5 []
        = Some (Returned [0, 1])"
  by code_simp

text \<open>
  C3, as amended.  \<open>flatten\<close> returns false exactly when some block ends in an invoke or the
  function has at most one block, and then the function is unchanged; it returns true exactly
  when neither holds and the run completes, and then it returns what \<open>fixStack\<close> makes of
  the rewritten function.  For a function that is not rejected and is within the input
  contract (distinct blocks, terminators with at most two successors, two only for a
  conditional branch, every successor a non-entry block of the function), the run completes,
  returns true, and the function handed to \<open>fixStack\<close> differs from the input.
\<close>

theorem flatten_validator:
  "(flatten fixStack rnd shuffle f = Inr (False, g)
      \<longleftrightarrow> ((\<exists>blk\<in>set f. isa_InvokeInst (bb_term blk)) \<or> length f \<le> 1) \<and> g = f)
   \<and> (flatten fixStack rnd shuffle f = Inr (True, g)
      \<longleftrightarrow> \<not> ((\<exists>blk\<in>set f. isa_InvokeInst (bb_term blk)) \<or> length f \<le> 1)
          \<and> (\<exists>st. flattenCore rnd shuffle f = Inr (Some st) \<and> g = fixStack (fl_func st)))
   \<and> (distinct (map bb_id f) \<and> (\<forall>xs. mset (shuffle xs) = mset xs)
        \<and> (\<forall>blk\<in>set f. getNumSuccessors (bb_term blk) \<le> 2
              \<and> (getNumSuccessors (bb_term blk) = 2 \<longrightarrow> isConditional (bb_term blk))
              \<and> set (successors (bb_term blk)) \<subseteq> bb_id ` set (tl f))
        \<and> \<not> ((\<exists>blk\<in>set f. isa_InvokeInst (bb_term blk)) \<or> length f \<le> 1)
      \<longrightarrow> (\<exists>st. flattenCore rnd shuffle f = Inr (Some st)
             \<and> flatten fixStack rnd shuffle f = Inr (True, fixStack (fl_func st))
             \<and> fl_func st \<noteq> f))"
proof (intro conjI impI)
  show "flatten fixStack rnd shuffle f = Inr (False, g)
      \<longleftrightarrow> ((\<exists>blk\<in>set f. isa_InvokeInst (bb_term blk)) \<or> length f \<le> 1) \<and> g = f"
    using flattenCore_None_iff [of rnd shuffle f]
    by (auto simp: flatten_def split: sum.splits option.splits)
next
  show "flatten fixStack rnd shuffle f = Inr (True, g)
      \<longleftrightarrow> \<not> ((\<exists>blk\<in>set f. isa_InvokeInst (bb_term blk)) \<or> length f \<le> 1)
          \<and> (\<exists>st. flattenCore rnd shuffle f = Inr (Some st) \<and> g = fixStack (fl_func st))"
  proof (cases "flattenCore rnd shuffle f")
    case (Inl e)
    then show ?thesis by (simp add: flatten_def)
  next
    case (Inr x)
    show ?thesis
    proof (cases x)
      case None
      then show ?thesis using Inr flattenCore_None_iff [of rnd shuffle f]
        by (simp add: flatten_def)
    next
      case (Some st)
      then have "\<not> ((\<exists>blk\<in>set f. isa_InvokeInst (bb_term blk)) \<or> length f \<le> 1)"
        using Inr flattenCore_None_iff [of rnd shuffle f] by simp
      then show ?thesis using Inr Some by (auto simp: flatten_def)
    qed
  qed
next
  assume a: "distinct (map bb_id f) \<and> (\<forall>xs. mset (shuffle xs) = mset xs)
        \<and> (\<forall>blk\<in>set f. getNumSuccessors (bb_term blk) \<le> 2
              \<and> (getNumSuccessors (bb_term blk) = 2 \<longrightarrow> isConditional (bb_term blk))
              \<and> set (successors (bb_term blk)) \<subseteq> bb_id ` set (tl f))
        \<and> \<not> ((\<exists>blk\<in>set f. isa_InvokeInst (bb_term blk)) \<or> length f \<le> 1)"
  then have d: "distinct (map bb_id f)" and perm: "\<forall>xs. mset (shuffle xs) = mset xs"
    and ok: "\<not> (\<exists>blk\<in>set f. isa_InvokeInst (bb_term blk))" "length f > 1"
    and con: "\<forall>blk\<in>set f. getNumSuccessors (bb_term blk) \<le> 2
              \<and> (getNumSuccessors (bb_term blk) = 2 \<longrightarrow> isConditional (bb_term blk))
              \<and> set (successors (bb_term blk)) \<subseteq> bb_id ` set (tl f)"
    by auto
  have fne: "f \<noteq> []" using ok(2) by auto
  from flattenCore_total [OF d perm ok con, of rnd]
  obtain st where st: "flattenCore rnd shuffle f = Inr (Some st)" by blast
  from flattenCore_SomeD [OF st d perm] obtain e1 ds where
    ide: "bb_id e1 = bb_id (hd f)"
    and shape: "if getNumSuccessors (bb_term (hd f)) > 1
               then e1 = (hd f)\<lparr>bb_insts := butlast (bb_insts (hd f)), bb_term := Br (newBB f)\<rparr>
                    \<and> ds = firstBB (hd f) (newBB f) # tl f
               else e1 = hd f \<and> ds = tl f"
    and ids: "set (map bb_id (fl_func st)) = insert (newBB (e1 # ds)) (set (map bb_id (e1 # ds)))"
    by blast
  have tlsub: "set (tl f) \<subseteq> set ds" using shape by (auto split: if_splits)
  have "set (map bb_id f) \<subseteq> set (map bb_id (e1 # ds))"
    using tlsub ide fne by (cases f) auto
  then have "newBB (e1 # ds) \<notin> set (map bb_id f)"
    using newBB_fresh [of "e1 # ds"] by blast
  then have ne: "fl_func st \<noteq> f" using ids by auto
  show "\<exists>st. flattenCore rnd shuffle f = Inr (Some st)
             \<and> flatten fixStack rnd shuffle f = Inr (True, fixStack (fl_func st))
             \<and> fl_func st \<noteq> f"
    using st ne by (auto simp: flatten_def)
qed

theorem flatten_validator_witness:
  "flatten id exLabel rev [hd exProc] = Inr (False, [hd exProc])
   \<and> flatten id exLabel rev exProc = Inr (True, id (fl_func exFlat))
   \<and> fl_func exFlat \<noteq> exProc"
proof -
  have r: "(\<exists>blk\<in>set [hd exProc]. isa_InvokeInst (bb_term blk)) \<or> length [hd exProc] \<le> 1"
    by simp
  have c: "distinct (map bb_id exProc) \<and> (\<forall>xs::nat list. mset (rev xs) = mset xs)
        \<and> (\<forall>blk\<in>set exProc. getNumSuccessors (bb_term blk) \<le> 2
              \<and> (getNumSuccessors (bb_term blk) = 2 \<longrightarrow> isConditional (bb_term blk))
              \<and> set (successors (bb_term blk)) \<subseteq> bb_id ` set (tl exProc))
        \<and> \<not> ((\<exists>blk\<in>set exProc. isa_InvokeInst (bb_term blk)) \<or> length exProc \<le> 1)"
    by (simp add: exProc_def getNumSuccessors_def)
  note t1 = flatten_validator [of id exLabel rev "[hd exProc]" "[hd exProc]", THEN conjunct1]
  have a: "flatten id exLabel rev [hd exProc] = Inr (False, [hd exProc])"
    using t1 r by (simp only: simp_thms)
  note t3 = flatten_validator [of id exLabel rev exProc exProc, THEN conjunct2, THEN conjunct2,
      rule_format, OF c]
  from t3 obtain st where st: "flattenCore exLabel rev exProc = Inr (Some st)"
    "flatten id exLabel rev exProc = Inr (True, id (fl_func st))" "fl_func st \<noteq> exProc"
    by blast
  from st(1) have "st = exFlat" by (simp add: exProc_flat)
  with st a show ?thesis by simp
qed

text \<open>
  C3, as stated, fails.  No block of \<open>c10Proc\<close> ends in an invoke and it has four blocks,
  so it is not rejected; its entry block ends in a terminator with three successors, which
  the split moves to a dispatched block, and the rewriting stops at the assertion on the
  number of successors: \<open>flatten\<close> returns neither false nor true.
\<close>

theorem flatten_validator_counterexample:
  "map isa_InvokeInst (map bb_term c10Proc) = [False, False, False, False]
   \<and> length c10Proc = 4
   \<and> saveOrigBB c10Proc [] = Some [0, 1, 2, 3]
   \<and> flatten id exLabel rev c10Proc = Inl AssertNumSuccessors"
  by code_simp

text \<open>
  C4, as amended.  The cases of the switch are, in the shuffled order, the pairs of the label
  and the block at each position.  Every dispatched block is the target of exactly one case,
  and that case has the block's label as key.  When the labels drawn are pairwise distinct,
  the label of every dispatched block is the key of exactly one case and the switch sends
  it to that block.  Nothing in the code makes the labels distinct.
\<close>

theorem dispatch_cases:
  assumes "flattenCore rnd shuffle f = Inr (Some st)"
    and "distinct (map bb_id f)"
    and "\<forall>xs. mset (shuffle xs) = mset xs"
  shows "switchCases (fl_func st) (fl_loopEntry st)
           = map (\<lambda>b. (fl_bbIndex st ! b, fl_origBB st ! b)) (fl_bbSeq st)
         \<and> length (fl_bbIndex st) = length (fl_origBB st)
         \<and> (\<forall>k<length (fl_origBB st).
               count_list (map snd (switchCases (fl_func st) (fl_loopEntry st))) (fl_origBB st ! k) = 1
             \<and> (fl_bbIndex st ! k, fl_origBB st ! k) \<in> set (switchCases (fl_func st) (fl_loopEntry st))
             \<and> (distinct (fl_bbIndex st) \<longrightarrow>
                   count_list (map fst (switchCases (fl_func st) (fl_loopEntry st))) (fl_bbIndex st ! k) = 1
                 \<and> map_of (switchCases (fl_func st) (fl_loopEntry st)) (fl_bbIndex st ! k)
                     = Some (fl_origBB st ! k)))"
proof -
  from flattenCore_SomeD [OF assms] obtain e1 ds where
    d1: "distinct (map bb_id (e1 # ds))"
    and ob: "fl_origBB st = map bb_id ds" and bi: "fl_bbIndex st = map rnd [0..<length ds]"
    and bs: "fl_bbSeq st = shuffle [0..<length ds]"
    and L: "fl_loopEntry st = newBB (e1 # ds)"
    and gL: "getBB (fl_func st) (newBB (e1 # ds))
              = Some (loopBB (newBB (e1 # ds))
                  (map (\<lambda>b. (map rnd [0..<length ds] ! b, map bb_id ds ! b)) (shuffle [0..<length ds])))"
    by blast
  let ?cs = "switchCases (fl_func st) (fl_loopEntry st)"
  let ?n = "length (fl_origBB st)"
  have n: "?n = length ds" by (simp add: ob)
  have cs: "?cs = map (\<lambda>b. (fl_bbIndex st ! b, fl_origBB st ! b)) (fl_bbSeq st)"
    using gL by (simp add: switchCases_def L bi ob bs)
  have p: "set (fl_bbSeq st) = {0..<?n}" "distinct (fl_bbSeq st)"
    using perm_upt [of "shuffle [0..<length ds]" "length ds"] assms(3) by (simp_all add: bs n)
  have dob: "distinct (fl_origBB st)" using d1 by (simp add: ob)
  have len: "length (fl_bbIndex st) = ?n" by (simp add: bi ob)
  have per: "count_list (map snd ?cs) (fl_origBB st ! k) = 1
             \<and> (fl_bbIndex st ! k, fl_origBB st ! k) \<in> set ?cs
             \<and> (distinct (fl_bbIndex st) \<longrightarrow>
                   count_list (map fst ?cs) (fl_bbIndex st ! k) = 1
                 \<and> map_of ?cs (fl_bbIndex st ! k) = Some (fl_origBB st ! k))"
    if k: "k < ?n" for k
  proof -
    have kin: "k \<in> set (fl_bbSeq st)" using k p(1) by simp
    have i1: "inj_on ((!) (fl_origBB st)) (set (fl_bbSeq st))"
      using dob p(1) by (auto simp: inj_on_def nth_eq_iff_index_eq)
    have s: "map snd ?cs = map ((!) (fl_origBB st)) (fl_bbSeq st)" by (simp add: cs comp_def)
    have a: "count_list (map snd ?cs) (fl_origBB st ! k) = 1"
      unfolding s by (rule count_list_map_inj [OF p(2) i1 kin])
    have b: "(fl_bbIndex st ! k, fl_origBB st ! k) \<in> set ?cs"
      using kin by (auto simp: cs)
    have c: "count_list (map fst ?cs) (fl_bbIndex st ! k) = 1
                 \<and> map_of ?cs (fl_bbIndex st ! k) = Some (fl_origBB st ! k)"
      if dl: "distinct (fl_bbIndex st)"
    proof -
      have i2: "inj_on ((!) (fl_bbIndex st)) (set (fl_bbSeq st))"
        using dl p(1) len by (auto simp: inj_on_def nth_eq_iff_index_eq)
      have f: "map fst ?cs = map ((!) (fl_bbIndex st)) (fl_bbSeq st)" by (simp add: cs comp_def)
      have c1: "count_list (map fst ?cs) (fl_bbIndex st ! k) = 1"
        unfolding f by (rule count_list_map_inj [OF p(2) i2 kin])
      have "distinct (map fst ?cs)" unfolding f using p(2) i2 by (simp add: distinct_map)
      then have "map_of ?cs (fl_bbIndex st ! k) = Some (fl_origBB st ! k)"
        using b by simp
      with c1 show ?thesis by simp
    qed
    show ?thesis using a b c by blast
  qed
  show ?thesis using cs len per by blast
qed

theorem dispatch_cases_witness:
  "switchCases (fl_func exFlat) (fl_loopEntry exFlat) = [(13, 4), (12, 3), (11, 2), (10, 1)]
   \<and> count_list (map snd (switchCases (fl_func exFlat) (fl_loopEntry exFlat))) 1 = 1
   \<and> (10, 1) \<in> set (switchCases (fl_func exFlat) (fl_loopEntry exFlat))
   \<and> count_list (map fst (switchCases (fl_func exFlat) (fl_loopEntry exFlat))) 10 = 1
   \<and> map_of (switchCases (fl_func exFlat) (fl_loopEntry exFlat)) 10 = Some 1"
proof -
  have k: "0 < length (fl_origBB exFlat)" by (simp add: exFlat_def)
  have dl: "distinct (fl_bbIndex exFlat)" by (simp add: exFlat_def)
  have v: "fl_origBB exFlat ! 0 = 1" "fl_bbIndex exFlat ! 0 = 10" "fl_bbSeq exFlat = [3, 2, 1, 0]"
    "fl_origBB exFlat = [1, 2, 3, 4]" "fl_bbIndex exFlat = [10, 11, 12, 13]"
    by (simp_all add: exFlat_def)
  from dispatch_cases [OF exProc_flat exProc_distinct mset_rev_all] k dl
  show ?thesis unfolding v by simp
qed

text \<open>
  C4 as stated fails when two draws coincide: with the label 7 drawn twice, the switch has
  two cases with key 7.
\<close>

theorem dispatch_cases_counterexample:
  "flattenCore sameLabel rev c4Proc = Inr (Some c4Flat)
   \<and> fl_origBB c4Flat = [1, 2] \<and> fl_bbIndex c4Flat = [7, 7]
   \<and> switchCases (fl_func c4Flat) (fl_loopEntry c4Flat) = [(7, 2), (7, 1)]
   \<and> count_list (map fst (switchCases (fl_func c4Flat) (fl_loopEntry c4Flat))) 7 = 2"
  by code_simp

text \<open>
  C5.  After a run that completes, every dispatched block whose terminator had no successor
  is as it was after the entry split; every other dispatched block keeps its instructions,
  followed by the sign extension, the two xors and the and that compute the next state, and
  the store of that value into the state variable, and ends with a jump to the loop header.
  No successor of a dispatched block is a dispatched block.
\<close>

theorem dispatched_blocks_rewritten:
  assumes "flattenCore rnd shuffle f = Inr (Some st)"
    and "distinct (map bb_id f)"
    and "\<forall>xs. mset (shuffle xs) = mset xs"
  shows "\<forall>k<length (fl_origBB st).
           \<exists>blk. getBB (fl_split st) (fl_origBB st ! k) = Some blk
             \<and> (successors (bb_term blk) = [] \<longrightarrow>
                  getBB (fl_func st) (fl_origBB st ! k) = Some blk)
             \<and> (successors (bb_term blk) \<noteq> [] \<longrightarrow>
                  (\<exists>c iT iF. succIndex (fl_origBB st) (fl_bbSeq st) k (bb_term blk) = Inr (c, iT, iF)
                     \<and> iT < length (fl_bbIndex st) \<and> iF < length (fl_bbIndex st)
                     \<and> getBB (fl_func st) (fl_origBB st ! k)
                         = Some (blk\<lparr>bb_insts := bb_insts blk
                                    @ [cond c,
                                       tempValFalse (fl_bbIndex st ! k) (fl_bbIndex st ! iF),
                                       maskVal c (fl_bbIndex st ! iT) (fl_bbIndex st ! iF),
                                       finalVal c (fl_bbIndex st ! k) (fl_bbIndex st ! iT) (fl_bbIndex st ! iF),
                                       StoreInst (InstV (finalVal c (fl_bbIndex st ! k)
                                            (fl_bbIndex st ! iT) (fl_bbIndex st ! iF)))
                                         (InstV switchVar)],
                                  bb_term := Br (fl_loopEntry st)\<rparr>)))
             \<and> (\<forall>blk'. getBB (fl_func st) (fl_origBB st ! k) = Some blk' \<longrightarrow>
                   set (successors (bb_term blk')) \<inter> set (fl_origBB st) = {})"
proof (intro allI impI)
  fix k assume k: "k < length (fl_origBB st)"
  from flattenCore_SomeD [OF assms] obtain e1 ds where
    d1: "distinct (map bb_id (e1 # ds))"
    and ob: "fl_origBB st = map bb_id ds" and bi: "fl_bbIndex st = map rnd [0..<length ds]"
    and bs: "fl_bbSeq st = shuffle [0..<length ds]"
    and L: "fl_loopEntry st = newBB (e1 # ds)" and sp: "fl_split st = e1 # ds"
    and rw: "\<forall>k<length ds. \<exists>blk'. rewriteBB (map bb_id ds) (map rnd [0..<length ds])
                       (shuffle [0..<length ds]) (newBB (e1 # ds)) k (ds ! k) = Inr blk'
                 \<and> getBB (fl_func st) (map bb_id ds ! k) = Some blk'"
    by blast
  have kd: "k < length ds" using k by (simp add: ob)
  from rw kd obtain blk' where
    r: "rewriteBB (fl_origBB st) (fl_bbIndex st) (fl_bbSeq st) (fl_loopEntry st) k (ds ! k) = Inr blk'"
    and g': "getBB (fl_func st) (fl_origBB st ! k) = Some blk'"
    unfolding ob bi bs L by blast
  note D = rewriteBB_InrD [OF r]
  have g: "getBB (fl_split st) (fl_origBB st ! k) = Some (ds ! k)"
    unfolding sp ob by (rule getBB_split_nth [OF d1 kd])
  have Lfresh: "fl_loopEntry st \<notin> set (fl_origBB st)"
    using newBB_fresh [of "e1 # ds"] by (simp add: L ob)
  have a: "successors (bb_term (ds ! k)) = [] \<longrightarrow>
                  getBB (fl_func st) (fl_origBB st ! k) = Some (ds ! k)"
    using D g' by simp
  have b: "successors (bb_term (ds ! k)) \<noteq> [] \<longrightarrow>
                  (\<exists>c iT iF. succIndex (fl_origBB st) (fl_bbSeq st) k (bb_term (ds ! k)) = Inr (c, iT, iF)
                     \<and> iT < length (fl_bbIndex st) \<and> iF < length (fl_bbIndex st)
                     \<and> getBB (fl_func st) (fl_origBB st ! k)
                         = Some ((ds ! k)\<lparr>bb_insts := bb_insts (ds ! k)
                                    @ [cond c,
                                       tempValFalse (fl_bbIndex st ! k) (fl_bbIndex st ! iF),
                                       maskVal c (fl_bbIndex st ! iT) (fl_bbIndex st ! iF),
                                       finalVal c (fl_bbIndex st ! k) (fl_bbIndex st ! iT) (fl_bbIndex st ! iF),
                                       StoreInst (InstV (finalVal c (fl_bbIndex st ! k)
                                            (fl_bbIndex st ! iT) (fl_bbIndex st ! iF)))
                                         (InstV switchVar)],
                                  bb_term := Br (fl_loopEntry st)\<rparr>))"
    using D g' by (auto simp: newInsts_def)
  have c: "\<forall>blk''. getBB (fl_func st) (fl_origBB st ! k) = Some blk'' \<longrightarrow>
                   set (successors (bb_term blk'')) \<inter> set (fl_origBB st) = {}"
  proof (cases "successors (bb_term (ds ! k)) = []")
    case True
    then show ?thesis using D g' by simp
  next
    case False
    then show ?thesis using D g' Lfresh by auto
  qed
  show "\<exists>blk. getBB (fl_split st) (fl_origBB st ! k) = Some blk
             \<and> (successors (bb_term blk) = [] \<longrightarrow>
                  getBB (fl_func st) (fl_origBB st ! k) = Some blk)
             \<and> (successors (bb_term blk) \<noteq> [] \<longrightarrow>
                  (\<exists>c iT iF. succIndex (fl_origBB st) (fl_bbSeq st) k (bb_term blk) = Inr (c, iT, iF)
                     \<and> iT < length (fl_bbIndex st) \<and> iF < length (fl_bbIndex st)
                     \<and> getBB (fl_func st) (fl_origBB st ! k)
                         = Some (blk\<lparr>bb_insts := bb_insts blk
                                    @ [cond c,
                                       tempValFalse (fl_bbIndex st ! k) (fl_bbIndex st ! iF),
                                       maskVal c (fl_bbIndex st ! iT) (fl_bbIndex st ! iF),
                                       finalVal c (fl_bbIndex st ! k) (fl_bbIndex st ! iT) (fl_bbIndex st ! iF),
                                       StoreInst (InstV (finalVal c (fl_bbIndex st ! k)
                                            (fl_bbIndex st ! iT) (fl_bbIndex st ! iF)))
                                         (InstV switchVar)],
                                  bb_term := Br (fl_loopEntry st)\<rparr>)))
             \<and> (\<forall>blk'. getBB (fl_func st) (fl_origBB st ! k) = Some blk' \<longrightarrow>
                   set (successors (bb_term blk')) \<inter> set (fl_origBB st) = {})"
    using g a b c by blast
qed

theorem dispatched_blocks_rewritten_witness:
  "getBB (fl_split exFlat) (fl_origBB exFlat ! 0)
      = Some \<lparr>bb_id = 1, bb_insts = [Orig 1], bb_term = CondBr (InstV (Orig 1)) 2 3\<rparr>
   \<and> succIndex (fl_origBB exFlat) (fl_bbSeq exFlat) 0 (CondBr (InstV (Orig 1)) 2 3)
        = Inr (InstV (Orig 1), 1, 2)
   \<and> getBB (fl_func exFlat) (fl_origBB exFlat ! 0)
      = Some \<lparr>bb_id = 1,
              bb_insts = [Orig 1, cond (InstV (Orig 1)), tempValFalse 10 12,
                          maskVal (InstV (Orig 1)) 11 12, finalVal (InstV (Orig 1)) 10 11 12,
                          StoreInst (InstV (finalVal (InstV (Orig 1)) 10 11 12)) (InstV switchVar)],
              bb_term = Br (fl_loopEntry exFlat)\<rparr>
   \<and> set (successors (Br (fl_loopEntry exFlat))) \<inter> set (fl_origBB exFlat) = {}
   \<and> getBB (fl_split exFlat) (fl_origBB exFlat ! 3) = Some \<lparr>bb_id = 4, bb_insts = [Orig 4], bb_term = Ret\<rparr>
   \<and> getBB (fl_func exFlat) (fl_origBB exFlat ! 3) = Some \<lparr>bb_id = 4, bb_insts = [Orig 4], bb_term = Ret\<rparr>"
proof -
  have k: "0 < length (fl_origBB exFlat)" "3 < length (fl_origBB exFlat)"
    by (simp_all add: exFlat_def)
  note t = dispatched_blocks_rewritten [OF exProc_flat exProc_distinct mset_rev_all, rule_format]
  from t [OF k(1)] t [OF k(2)] show ?thesis
    by (simp add: exFlat_def exProc_def getBB_def succIndex_def getNumSuccessors_def
          getSuccessor_def newInsts_def)
qed

text \<open>
  C6.  After a run that completes, take a dispatched block whose terminator has a single
  successor.  The successor is a dispatched block, at position \<open>j\<close> of \<open>origBB\<close>.  The block
  the rewriting leaves keeps its instructions, followed by the new instructions built with
  the constant condition 0, the block's own label, the label at the position of the block
  in \<open>bbSeq\<close> (the "true" label) and the label \<open>bbIndex[j]\<close> of the successor, and ends
  with a jump to the loop header.  Entered through the dispatch (the load holds the block's
  label), those instructions store \<open>bbIndex[j]\<close> into the state variable whatever label
  stands at the true position, exactly as a direct store of \<open>bbIndex[j]\<close> does, with the
  same program state.
\<close>

theorem uncond_branch_next_state:
  assumes "flattenCore rnd shuffle f = Inr (Some st)"
    and "distinct (map bb_id f)"
    and "\<forall>xs. mset (shuffle xs) = mset xs"
    and "k < length (fl_origBB st)"
    and "getBB (fl_split st) (fl_origBB st ! k) = Some blk"
    and "getNumSuccessors (bb_term blk) = 1"
    and "map_of (regs c) load = Some (fl_bbIndex st ! k)"
  shows "\<exists>j. j = index_of (fl_origBB st) (getSuccessor (bb_term blk) 0)
           \<and> j < length (fl_origBB st)
           \<and> fl_origBB st ! j = getSuccessor (bb_term blk) 0
           \<and> getBB (fl_func st) (fl_origBB st ! k)
               = Some (blk\<lparr>bb_insts := bb_insts blk
                          @ newInsts (ConstantInt1 False) (fl_bbIndex st ! k)
                              (fl_bbIndex st ! index_of (fl_bbSeq st) k) (fl_bbIndex st ! j),
                        bb_term := Br (fl_loopEntry st)\<rparr>)
           \<and> (\<forall>lt. \<exists>c' c''.
                 exec_insts ex cv
                   (newInsts (ConstantInt1 False) (fl_bbIndex st ! k) lt (fl_bbIndex st ! j)) c
                   = Some c'
               \<and> exec_insts ex cv [StoreInst (ConstantInt32 (fl_bbIndex st ! j)) (InstV switchVar)] c
                   = Some c''
               \<and> map_of (mem c') (InstV switchVar) = Some (fl_bbIndex st ! j)
               \<and> map_of (mem c'') (InstV switchVar) = Some (fl_bbIndex st ! j)
               \<and> ustate c' = ustate c'')"
proof -
  from flattenCore_SomeD [OF assms(1-3)] obtain e1 ds where
    d1: "distinct (map bb_id (e1 # ds))"
    and ob: "fl_origBB st = map bb_id ds" and bi: "fl_bbIndex st = map rnd [0..<length ds]"
    and bs: "fl_bbSeq st = shuffle [0..<length ds]"
    and L: "fl_loopEntry st = newBB (e1 # ds)" and sp: "fl_split st = e1 # ds"
    and rw: "\<forall>k<length ds. \<exists>blk'. rewriteBB (map bb_id ds) (map rnd [0..<length ds])
                       (shuffle [0..<length ds]) (newBB (e1 # ds)) k (ds ! k) = Inr blk'
                 \<and> getBB (fl_func st) (map bb_id ds ! k) = Some blk'"
    by blast
  have kd: "k < length ds" using assms(4) by (simp add: ob)
  have "getBB (fl_split st) (fl_origBB st ! k) = Some (ds ! k)"
    unfolding sp ob by (rule getBB_split_nth [OF d1 kd])
  then have blk: "ds ! k = blk" using assms(5) by simp
  from rw kd obtain blk' where
    r: "rewriteBB (fl_origBB st) (fl_bbIndex st) (fl_bbSeq st) (fl_loopEntry st) k blk = Inr blk'"
    and g': "getBB (fl_func st) (fl_origBB st ! k) = Some blk'"
    unfolding ob bi bs L blk [symmetric] by blast
  let ?j = "index_of (fl_origBB st) (getSuccessor (bb_term blk) 0)"
  have si: "succIndex (fl_origBB st) (fl_bbSeq st) k (bb_term blk)
              = Inr (ConstantInt1 False, index_of (fl_bbSeq st) k, ?j)"
    using assms(6) by (simp add: succIndex_def)
  have ne: "successors (bb_term blk) \<noteq> []"
    using assms(6) by (auto simp: getNumSuccessors_def)
  from rewriteBB_InrD [OF r] ne si
  have jb: "?j < length (fl_bbIndex st)"
    and b': "blk' = blk\<lparr>bb_insts := bb_insts blk
                  @ newInsts (ConstantInt1 False) (fl_bbIndex st ! k)
                      (fl_bbIndex st ! index_of (fl_bbSeq st) k) (fl_bbIndex st ! ?j),
                bb_term := Br (fl_loopEntry st)\<rparr>"
    by auto
  have len: "length (fl_bbIndex st) = length (fl_origBB st)" by (simp add: bi ob)
  have jl: "?j < length (fl_origBB st)" using jb len by simp
  then have mem: "getSuccessor (bb_term blk) 0 \<in> set (fl_origBB st)"
    by (simp add: index_of_lt_iff)
  have nth: "fl_origBB st ! ?j = getSuccessor (bb_term blk) 0"
    using index_of_mem [OF mem] by simp
  have ex: "\<exists>c' c''.
                 exec_insts ex cv
                   (newInsts (ConstantInt1 False) (fl_bbIndex st ! k) lt (fl_bbIndex st ! ?j)) c
                   = Some c'
               \<and> exec_insts ex cv [StoreInst (ConstantInt32 (fl_bbIndex st ! ?j)) (InstV switchVar)] c
                   = Some c''
               \<and> map_of (mem c') (InstV switchVar) = Some (fl_bbIndex st ! ?j)
               \<and> map_of (mem c'') (InstV switchVar) = Some (fl_bbIndex st ! ?j)
               \<and> ustate c' = ustate c''" for lt
  proof -
    from exec_newInsts [OF assms(7), of ex cv "ConstantInt1 False" lt "fl_bbIndex st ! ?j"]
    obtain c' where
      "exec_insts ex cv
         (newInsts (ConstantInt1 False) (fl_bbIndex st ! k) lt (fl_bbIndex st ! ?j)) c = Some c'"
      "ustate c' = ustate c" "map_of (mem c') (InstV switchVar) = Some (fl_bbIndex st ! ?j)"
      by auto
    then show ?thesis by simp
  qed
  show ?thesis using jl nth g' b' ex by blast
qed

theorem uncond_branch_next_state_witness:
  "fl_origBB exFlat ! 1 = 2
   \<and> getBB (fl_split exFlat) 2 = Some \<lparr>bb_id = 2, bb_insts = [Orig 2], bb_term = Br 4\<rparr>
   \<and> index_of (fl_origBB exFlat) 4 = 3 \<and> fl_origBB exFlat ! 3 = 4
   \<and> fl_bbIndex exFlat ! 1 = 11 \<and> fl_bbIndex exFlat ! 3 = 13
   \<and> getBB (fl_func exFlat) 2
        = Some \<lparr>bb_id = 2, bb_insts = Orig 2 # newInsts (ConstantInt1 False) 11 12 13,
                bb_term = Br 5\<rparr>
   \<and> (\<exists>c' c''. exec_insts noEffect allTrue (newInsts (ConstantInt1 False) 11 12 13)
                 \<lparr>ustate = (), regs = [(load, 11)], mem = []\<rparr> = Some c'
              \<and> exec_insts noEffect allTrue [StoreInst (ConstantInt32 13) (InstV switchVar)]
                 \<lparr>ustate = (), regs = [(load, 11)], mem = []\<rparr> = Some c''
              \<and> map_of (mem c') (InstV switchVar) = Some 13
              \<and> map_of (mem c'') (InstV switchVar) = Some 13
              \<and> ustate c' = ustate c'')
   \<and> (\<exists>c' c''. exec_insts noEffect allTrue (newInsts (ConstantInt1 False) 11 99 13)
                 \<lparr>ustate = (), regs = [(load, 11)], mem = []\<rparr> = Some c'
              \<and> exec_insts noEffect allTrue [StoreInst (ConstantInt32 13) (InstV switchVar)]
                 \<lparr>ustate = (), regs = [(load, 11)], mem = []\<rparr> = Some c''
              \<and> map_of (mem c') (InstV switchVar) = Some 13
              \<and> map_of (mem c'') (InstV switchVar) = Some 13
              \<and> ustate c' = ustate c'')"
proof -
  let ?blk = "\<lparr>bb_id = 2, bb_insts = [Orig 2], bb_term = Br 4\<rparr>"
  let ?c = "\<lparr>ustate = (), regs = [(load, 11::u32)], mem = []\<rparr>"
  have v: "fl_origBB exFlat = [1, 2, 3, 4]" "fl_bbIndex exFlat = [10, 11, 12, 13]"
    "fl_bbSeq exFlat = [3, 2, 1, 0]" "fl_loopEntry exFlat = 5"
    by (simp_all add: exFlat_def)
  have h4: "1 < length (fl_origBB exFlat)" by (simp add: v)
  have h5: "getBB (fl_split exFlat) (fl_origBB exFlat ! 1) = Some ?blk"
    by (simp add: exFlat_def exProc_def getBB_def)
  have h6: "getNumSuccessors (bb_term ?blk) = 1" by (simp add: getNumSuccessors_def)
  have h7: "map_of (regs ?c) load = Some (fl_bbIndex exFlat ! 1)" by (simp add: v)
  from uncond_branch_next_state [OF exProc_flat exProc_distinct mset_rev_all h4 h5 h6 h7,
      of noEffect allTrue]
  obtain j where j: "j = index_of (fl_origBB exFlat) (getSuccessor (bb_term ?blk) 0)"
    and g: "getBB (fl_func exFlat) (fl_origBB exFlat ! 1)
               = Some (?blk\<lparr>bb_insts := bb_insts ?blk
                          @ newInsts (ConstantInt1 False) (fl_bbIndex exFlat ! 1)
                              (fl_bbIndex exFlat ! index_of (fl_bbSeq exFlat) 1) (fl_bbIndex exFlat ! j),
                        bb_term := Br (fl_loopEntry exFlat)\<rparr>)"
    and e: "\<forall>lt. \<exists>c' c''.
                 exec_insts noEffect allTrue
                   (newInsts (ConstantInt1 False) (fl_bbIndex exFlat ! 1) lt (fl_bbIndex exFlat ! j)) ?c
                   = Some c'
               \<and> exec_insts noEffect allTrue [StoreInst (ConstantInt32 (fl_bbIndex exFlat ! j)) (InstV switchVar)] ?c
                   = Some c''
               \<and> map_of (mem c') (InstV switchVar) = Some (fl_bbIndex exFlat ! j)
               \<and> map_of (mem c'') (InstV switchVar) = Some (fl_bbIndex exFlat ! j)
               \<and> ustate c' = ustate c''"
    by blast
  have j3: "j = 3" using j by (simp add: v getSuccessor_def)
  have g2: "getBB (fl_func exFlat) 2
        = Some \<lparr>bb_id = 2, bb_insts = Orig 2 # newInsts (ConstantInt1 False) 11 12 13,
                bb_term = Br 5\<rparr>"
    using g unfolding j3 v by simp
  have e12: "\<exists>c' c''. exec_insts noEffect allTrue (newInsts (ConstantInt1 False) 11 12 13) ?c = Some c'
              \<and> exec_insts noEffect allTrue [StoreInst (ConstantInt32 13) (InstV switchVar)] ?c = Some c''
              \<and> map_of (mem c') (InstV switchVar) = Some 13
              \<and> map_of (mem c'') (InstV switchVar) = Some 13
              \<and> ustate c' = ustate c''"
    using e [rule_format, of 12] unfolding j3 v by simp
  have e99: "\<exists>c' c''. exec_insts noEffect allTrue (newInsts (ConstantInt1 False) 11 99 13) ?c = Some c'
              \<and> exec_insts noEffect allTrue [StoreInst (ConstantInt32 13) (InstV switchVar)] ?c = Some c''
              \<and> map_of (mem c') (InstV switchVar) = Some 13
              \<and> map_of (mem c'') (InstV switchVar) = Some 13
              \<and> ustate c' = ustate c''"
    using e [rule_format, of 99] unfolding j3 v by simp
  have s: "fl_origBB exFlat ! 1 = 2" "index_of (fl_origBB exFlat) 4 = 3" "fl_origBB exFlat ! 3 = 4"
    "fl_bbIndex exFlat ! 1 = 11" "fl_bbIndex exFlat ! 3 = 13"
    by (simp_all add: v)
  have h5': "getBB (fl_split exFlat) 2 = Some ?blk" using h5 by (simp add: v)
  show ?thesis using s h5' g2 e12 e99 by (intro conjI)
qed

text \<open>
  C7, as amended.  When the terminator of the entry block has more than one successor, the
  entry block keeps all its instructions but the last and ends with a branch to a new block,
  placed right after it, that holds the last instruction of the entry block (whatever it
  is, when there is one) and the terminator.  The new block is the first dispatched block;
  the entry block is not dispatched.
\<close>

theorem entry_split:
  assumes "distinct (map bb_id (e # r))" and "getNumSuccessors (bb_term e) > 1"
  shows "newBB (e # r) \<notin> set (map bb_id (e # r))
       \<and> splitEntry (e # r) (map bb_id r) =
           (e\<lparr>bb_insts := butlast (bb_insts e), bb_term := Br (newBB (e # r))\<rparr>
              # \<lparr>bb_id = newBB (e # r),
                  bb_insts = (if bb_insts e = [] then [] else [last (bb_insts e)]),
                  bb_term = bb_term e\<rparr>
              # r,
            newBB (e # r) # map bb_id r)
       \<and> (\<forall>st. flattenCore rnd shuffle (e # r) = Inr (Some st) \<longrightarrow>
             (fl_split st, fl_origBB st) = splitEntry (e # r) (map bb_id r)
             \<and> hd (fl_origBB st) = newBB (e # r)
             \<and> bb_id e \<notin> set (fl_origBB st))"
proof -
  have fr: "newBB (e # r) \<notin> set (map bb_id (e # r))" by (rule newBB_fresh)
  have sp: "splitEntry (e # r) (map bb_id r) =
           (e\<lparr>bb_insts := butlast (bb_insts e), bb_term := Br (newBB (e # r))\<rparr>
              # \<lparr>bb_id = newBB (e # r),
                  bb_insts = (if bb_insts e = [] then [] else [last (bb_insts e)]),
                  bb_term = bb_term e\<rparr>
              # r,
            newBB (e # r) # map bb_id r)"
    using assms(2) by (simp add: splitEntry_Cons [OF assms(1)] firstBB_def)
  have "(fl_split st, fl_origBB st) = splitEntry (e # r) (map bb_id r)
             \<and> hd (fl_origBB st) = newBB (e # r)
             \<and> bb_id e \<notin> set (fl_origBB st)"
    if "flattenCore rnd shuffle (e # r) = Inr (Some st)" for st
  proof -
    from flattenCore_split [OF that]
    have eq: "splitEntry (e # r) (map bb_id r) = (fl_split st, fl_origBB st)" by simp
    then have "fl_origBB st = newBB (e # r) # map bb_id r" using sp by simp
    then show ?thesis using eq fr assms(1) by auto
  qed
  then show ?thesis using fr sp by blast
qed

theorem entry_split_witness:
  "newBB c7Proc = 3
   \<and> fst (splitEntry c7Proc (map bb_id (tl c7Proc))) =
       [\<lparr>bb_id = 0, bb_insts = [Orig 0], bb_term = Br 3\<rparr>,
        \<lparr>bb_id = 3, bb_insts = [Orig 1], bb_term = CondBr (InstV (Orig 0)) 1 2\<rparr>,
        \<lparr>bb_id = 1, bb_insts = [], bb_term = Ret\<rparr>,
        \<lparr>bb_id = 2, bb_insts = [], bb_term = Ret\<rparr>]
   \<and> fl_split c7Flat = fst (splitEntry c7Proc (map bb_id (tl c7Proc)))
   \<and> fl_origBB c7Flat = snd (splitEntry c7Proc (map bb_id (tl c7Proc)))
   \<and> hd (fl_origBB c7Flat) = 3 \<and> 0 \<notin> set (fl_origBB c7Flat)"
proof -
  let ?e = "\<lparr>bb_id = 0, bb_insts = [Orig 0, Orig 1], bb_term = CondBr (InstV (Orig 0)) 1 2\<rparr>"
  let ?r = "[\<lparr>bb_id = 1, bb_insts = [], bb_term = Ret\<rparr>, \<lparr>bb_id = 2, bb_insts = [], bb_term = Ret\<rparr>]"
  have p: "c7Proc = ?e # ?r" by (simp add: c7Proc_def)
  have h1: "distinct (map bb_id (?e # ?r))" by simp
  have h2: "getNumSuccessors (bb_term ?e) > 1" by (simp add: getNumSuccessors_def)
  have nb: "newBB (?e # ?r) = 3" by (simp add: newBB_def)
  from entry_split [OF h1 h2, of exLabel rev] c7Proc_flat [unfolded p]
  have "splitEntry (?e # ?r) (map bb_id ?r) =
           (?e\<lparr>bb_insts := butlast (bb_insts ?e), bb_term := Br (newBB (?e # ?r))\<rparr>
              # \<lparr>bb_id = newBB (?e # ?r),
                  bb_insts = (if bb_insts ?e = [] then [] else [last (bb_insts ?e)]),
                  bb_term = bb_term ?e\<rparr>
              # ?r,
            newBB (?e # ?r) # map bb_id ?r)"
    and "(fl_split c7Flat, fl_origBB c7Flat) = splitEntry (?e # ?r) (map bb_id ?r)"
    and "hd (fl_origBB c7Flat) = newBB (?e # ?r)"
    and "bb_id ?e \<notin> set (fl_origBB c7Flat)"
    by blast+
  then show ?thesis unfolding p nb by (simp add: nb)
qed

text \<open>
  C7 as stated fails: the instruction that moves with a conditional branch is the one in
  front of it, here \<open>Orig 1\<close>, while the condition is defined by \<open>Orig 0\<close>, which stays in
  the entry block.
\<close>

theorem entry_split_counterexample:
  "getNumSuccessors (bb_term (hd c7Proc)) = 2
   \<and> splitEntry c7Proc [1, 2] =
       ([\<lparr>bb_id = 0, bb_insts = [Orig 0], bb_term = Br 3\<rparr>,
         \<lparr>bb_id = 3, bb_insts = [Orig 1], bb_term = CondBr (InstV (Orig 0)) 1 2\<rparr>,
         \<lparr>bb_id = 1, bb_insts = [], bb_term = Ret\<rparr>,
         \<lparr>bb_id = 2, bb_insts = [], bb_term = Ret\<rparr>], [3, 1, 2])
   \<and> specMoved (hd c7Proc) = [Orig 0]"
  by code_simp

text \<open>
  C8.  After a run that completes, the loop header holds the load of the state variable and
  a switch on it whose default target is the loop header itself: a state value that is the
  key of no case sends control back to the loop header, and a run that reaches the loop
  header with such a value in the state variable never leaves it.
\<close>

theorem dispatch_default_is_loop_header:
  assumes "flattenCore rnd shuffle f = Inr (Some st)"
    and "distinct (map bb_id f)"
    and "\<forall>xs. mset (shuffle xs) = mset xs"
  shows "\<exists>cs. getBB (fl_func st) (fl_loopEntry st)
              = Some \<lparr>bb_id = fl_loopEntry st, bb_insts = [load],
                      bb_term = Switch (InstV load) (fl_loopEntry st) cs\<rparr>
          \<and> (\<forall>w. w \<notin> fst ` set cs \<longrightarrow>
                switchDest (fl_loopEntry st) cs w = fl_loopEntry st
                \<and> (\<forall>cf n. map_of (mem cf) (InstV switchVar) = Some w \<longrightarrow>
                       run ex cv (fl_func st) n (fl_loopEntry st) cf = None))"
proof -
  from flattenCore_SomeD [OF assms] obtain cs where
    g: "getBB (fl_func st) (fl_loopEntry st) = Some (loopBB (fl_loopEntry st) cs)"
    by auto
  have n: "map_of cs w = None" if "w \<notin> fst ` set cs" for w
    using that by (simp add: map_of_eq_None_iff)
  have "switchDest (fl_loopEntry st) cs w = fl_loopEntry st
          \<and> (\<forall>cf n. map_of (mem cf) (InstV switchVar) = Some w \<longrightarrow>
                 run ex cv (fl_func st) n (fl_loopEntry st) cf = None)"
    if "w \<notin> fst ` set cs" for w
    using run_default_loop [OF g n [OF that], of _ ex cv] n [OF that]
    by (simp add: switchDest_def)
  then show ?thesis using g by (auto simp: loopBB_def)
qed

theorem dispatch_default_is_loop_header_witness:
  "getBB (fl_func exFlat) (fl_loopEntry exFlat)
      = Some \<lparr>bb_id = 5, bb_insts = [load],
              bb_term = Switch (InstV load) 5 [(13, 4), (12, 3), (11, 2), (10, 1)]\<rparr>
   \<and> switchDest (fl_loopEntry exFlat) [(13, 4), (12, 3), (11, 2), (10, 1)] 99 = fl_loopEntry exFlat
   \<and> run noEffect allTrue (fl_func exFlat) 9 (fl_loopEntry exFlat)
         \<lparr>ustate = (), regs = [], mem = [(InstV switchVar, 99)]\<rparr> = None"
proof -
  from dispatch_default_is_loop_header [OF exProc_flat exProc_distinct mset_rev_all,
      of noEffect allTrue]
  obtain cs where cs: "getBB (fl_func exFlat) (fl_loopEntry exFlat)
              = Some \<lparr>bb_id = fl_loopEntry exFlat, bb_insts = [load],
                      bb_term = Switch (InstV load) (fl_loopEntry exFlat) cs\<rparr>"
     and d: "\<forall>w. w \<notin> fst ` set cs \<longrightarrow>
                switchDest (fl_loopEntry exFlat) cs w = fl_loopEntry exFlat
                \<and> (\<forall>cf n. map_of (mem cf) (InstV switchVar) = Some w \<longrightarrow>
                       run noEffect allTrue (fl_func exFlat) n (fl_loopEntry exFlat) cf = None)"
    by blast
  have g: "getBB (fl_func exFlat) (fl_loopEntry exFlat)
      = Some \<lparr>bb_id = 5, bb_insts = [load],
              bb_term = Switch (InstV load) 5 [(13, 4), (12, 3), (11, 2), (10, 1)]\<rparr>"
    by (simp add: exFlat_def getBB_def)
  with cs have c: "cs = [(13, 4), (12, 3), (11, 2), (10, 1)]" by simp
  have w: "(99::u32) \<notin> fst ` set cs" unfolding c by simp
  have m: "map_of (mem \<lparr>ustate = (), regs = [], mem = [(InstV switchVar, 99::u32)]\<rparr>)
             (InstV switchVar) = Some 99" by simp
  from d w have d1: "switchDest (fl_loopEntry exFlat) cs 99 = fl_loopEntry exFlat"
    and d2: "\<forall>cf n. map_of (mem cf) (InstV switchVar) = Some 99 \<longrightarrow>
                       run noEffect allTrue (fl_func exFlat) n (fl_loopEntry exFlat) cf = None"
    by blast+
  from d2 m have "run noEffect allTrue (fl_func exFlat) 9 (fl_loopEntry exFlat)
         \<lparr>ustate = (), regs = [], mem = [(InstV switchVar, 99)]\<rparr> = None"
    by blast
  with g d1 show ?thesis unfolding c by simp
qed

text \<open>
  C9.  After a run that completes, the first block of the function is the entry prologue:
  the instructions the entry block keeps (all of them, or all but the last when its tail was
  split off), then the allocation of the state variable and the store of \<open>bbIndex[0]\<close>
  into it, and as terminator a single jump to the loop header.  \<open>bbIndex[0]\<close> is the label
  of the first dispatched block \<open>origBB[0]\<close>: the switch has the case for it.
\<close>

theorem entry_prologue_initialises_state:
  assumes "flattenCore rnd shuffle f = Inr (Some st)"
    and "distinct (map bb_id f)"
    and "\<forall>xs. mset (shuffle xs) = mset xs"
  shows "\<exists>r'. fl_func st =
                \<lparr>bb_id = bb_id (hd f),
                 bb_insts =
                    (if getNumSuccessors (bb_term (hd f)) > 1 then butlast (bb_insts (hd f))
                     else bb_insts (hd f))
                    @ [AllocaInst ''switchVar'',
                       StoreInst (ConstantInt32 (fl_bbIndex st ! 0)) (InstV (AllocaInst ''switchVar''))],
                 bb_term = Br (fl_loopEntry st)\<rparr> # r'
           \<and> fl_origBB st \<noteq> [] \<and> length (fl_bbIndex st) = length (fl_origBB st)
           \<and> (fl_bbIndex st ! 0, fl_origBB st ! 0)
                \<in> set (switchCases (fl_func st) (fl_loopEntry st))"
proof -
  from flattenCore_SomeD [OF assms] obtain e1 ds r' where
    ide: "bb_id e1 = bb_id (hd f)" and ne: "ds \<noteq> []"
    and shape: "if getNumSuccessors (bb_term (hd f)) > 1
               then e1 = (hd f)\<lparr>bb_insts := butlast (bb_insts (hd f)), bb_term := Br (newBB f)\<rparr>
                    \<and> ds = firstBB (hd f) (newBB f) # tl f
               else e1 = hd f \<and> ds = tl f"
    and ob: "fl_origBB st = map bb_id ds" and bi: "fl_bbIndex st = map rnd [0..<length ds]"
    and L: "fl_loopEntry st = newBB (e1 # ds)"
    and hd: "fl_func st = prologueBB e1 (rnd 0) (newBB (e1 # ds)) # r'"
    and gL: "getBB (fl_func st) (newBB (e1 # ds))
              = Some (loopBB (newBB (e1 # ds))
                  (map (\<lambda>b. (map rnd [0..<length ds] ! b, map bb_id ds ! b)) (shuffle [0..<length ds])))"
    by blast
  have n0: "0 < length ds" using ne by simp
  have b0: "fl_bbIndex st ! 0 = rnd 0" using n0 by (simp add: bi)
  have "0 \<in> set (shuffle [0..<length ds])"
    using perm_upt(1) [of "shuffle [0..<length ds]" "length ds"] assms(3) n0 by simp
  then have "(map rnd [0..<length ds] ! 0, map bb_id ds ! 0)
      \<in> set (map (\<lambda>b. (map rnd [0..<length ds] ! b, map bb_id ds ! b)) (shuffle [0..<length ds]))"
    by (simp add: image_iff) blast
  then have c: "(fl_bbIndex st ! 0, fl_origBB st ! 0) \<in> set (switchCases (fl_func st) (fl_loopEntry st))"
    using gL by (simp add: switchCases_def L bi ob)
  have i: "bb_insts e1 = (if getNumSuccessors (bb_term (hd f)) > 1 then butlast (bb_insts (hd f))
                     else bb_insts (hd f))"
    using shape by (simp split: if_splits)
  have p: "prologueBB e1 (rnd 0) (newBB (e1 # ds)) =
      \<lparr>bb_id = bb_id (hd f),
       bb_insts = (if getNumSuccessors (bb_term (hd f)) > 1 then butlast (bb_insts (hd f))
                     else bb_insts (hd f))
          @ [AllocaInst ''switchVar'',
             StoreInst (ConstantInt32 (fl_bbIndex st ! 0)) (InstV (AllocaInst ''switchVar''))],
       bb_term = Br (fl_loopEntry st)\<rparr>"
    unfolding i [symmetric] by (simp add: prologueBB_def b0 L switchVar_def flip: ide)
  show ?thesis using hd p c ne ob bi by auto
qed

theorem entry_prologue_initialises_state_witness:
  "hd (fl_func exFlat) =
        \<lparr>bb_id = 0,
         bb_insts = [Orig 0, AllocaInst ''switchVar'',
                     StoreInst (ConstantInt32 10) (InstV (AllocaInst ''switchVar''))],
         bb_term = Br 5\<rparr>
   \<and> fl_bbIndex exFlat ! 0 = 10 \<and> fl_origBB exFlat ! 0 = 1
   \<and> (10, 1) \<in> set (switchCases (fl_func exFlat) (fl_loopEntry exFlat))"
proof -
  from entry_prologue_initialises_state [OF exProc_flat exProc_distinct mset_rev_all]
  have "(fl_bbIndex exFlat ! 0, fl_origBB exFlat ! 0)
                \<in> set (switchCases (fl_func exFlat) (fl_loopEntry exFlat))"
    by blast
  then show ?thesis
    by (simp add: exFlat_def exProc_def switchVar_def)
qed

text \<open>
  C10, as amended.  For a function that passes validation, when the terminator of every
  dispatched block (the tail split off the entry block included) has at most two successors
  and every successor of a dispatched block is a dispatched block, no assertion on the
  number of successors fails and no vector is read out of range.
\<close>

theorem rewriting_loop_safe:
  assumes "distinct (map bb_id f)" and "\<forall>xs. mset (shuffle xs) = mset xs"
    and "\<not> (\<exists>blk\<in>set f. isa_InvokeInst (bb_term blk))" and "length f > 1"
    and "\<forall>blk\<in>set (dispatched f). getNumSuccessors (bb_term blk) \<le> 2
           \<and> set (successors (bb_term blk)) \<subseteq> bb_id ` set (dispatched f)"
  shows "flattenCore rnd shuffle f \<noteq> Inl AssertNumSuccessors
       \<and> flattenCore rnd shuffle f \<noteq> Inl IndexOutOfRange
       \<and> flattenCore rnd shuffle f \<noteq> Inl NoBlock"
proof -
  have sub: "\<forall>blk\<in>set (dispatched f). set (successors (bb_term blk)) \<subseteq> bb_id ` set (dispatched f)"
    using assms(5) by simp
  have "err = BadCast" if "flattenCore rnd shuffle f = Inl err" for err
    using flattenCore_no_error [OF assms(1-4) sub that] assms(5) by auto
  then show ?thesis by fastforce
qed

theorem rewriting_loop_safe_witness:
  "dispatched exProc = tl exProc
   \<and> flattenCore exLabel rev exProc \<noteq> Inl AssertNumSuccessors
   \<and> flattenCore exLabel rev exProc \<noteq> Inl IndexOutOfRange
   \<and> flattenCore exLabel rev exProc \<noteq> Inl NoBlock"
proof -
  have h3: "\<not> (\<exists>blk\<in>set exProc. isa_InvokeInst (bb_term blk))"
    by (simp add: exProc_def)
  have h4: "length exProc > 1" by (simp add: exProc_def)
  have h5: "\<forall>blk\<in>set (dispatched exProc). getNumSuccessors (bb_term blk) \<le> 2
           \<and> set (successors (bb_term blk)) \<subseteq> bb_id ` set (dispatched exProc)"
    unfolding exProc_dispatched by (simp add: exProc_def getNumSuccessors_def)
  from rewriting_loop_safe [OF exProc_distinct mset_rev_all h3 h4 h5, of exLabel]
  show ?thesis by (simp add: exProc_dispatched)
qed

text \<open>
  C10 as stated fails: the function below passes validation, its non-entry blocks have no
  successor, every successor of a dispatched block is dispatched, but the tail split off
  the entry block carries the entry's terminator with three successors, and the assertion
  fails.
\<close>

theorem rewriting_loop_safe_counterexample:
  "saveOrigBB c10Proc [] = Some [0, 1, 2, 3]
   \<and> map getNumSuccessors (map bb_term (tl c10Proc)) = [0, 0, 0]
   \<and> map bb_id (dispatched c10Proc) = [4, 1, 2, 3]
   \<and> map successors (map bb_term (dispatched c10Proc)) = [[1, 2, 3], [], [], []]
   \<and> flattenCore exLabel rev c10Proc = Inl AssertNumSuccessors"
  by code_simp

end
